theory Spec2Isabelle
  imports Main "HOL-Library.Product_Lexorder"
begin

section \<open>The Minesweeper agent of \<^verbatim>\<open>minesweeper.py\<close>\<close>

text \<open>
  The classes \<^verbatim>\<open>Sentence\<close> and \<^verbatim>\<open>MinesweeperAI\<close> are embedded as records, every
  method as a function that takes the object and returns the updated one. A cell is a
  pair of Python integers. Python sets are HOL sets; a Python set is always finite, and
  the places where the code relies on that (\<^verbatim>\<open>len\<close>, iterating over a set) are the
  places where theorems assume it.
\<close>

subsection \<open>Sentence\<close>

type_synonym cell = "int \<times> int"

record Sentence =
  cells :: "cell set"
  count :: int
  mine_cell :: "cell set"
  safe_cell :: "cell set"

text \<open>\<^verbatim>\<open>Sentence.__init__\<close>: the cells are copied, the two bookkeeping sets start empty.\<close>

definition new_Sentence :: "cell set \<Rightarrow> int \<Rightarrow> Sentence" where
  "new_Sentence cs n = \<lparr>cells = cs, count = n, mine_cell = {}, safe_cell = {}\<rparr>"

text \<open>\<^verbatim>\<open>Sentence.__eq__\<close> compares cells and count only.\<close>

definition sentence_eq :: "Sentence \<Rightarrow> Sentence \<Rightarrow> bool" where
  "sentence_eq s t \<longleftrightarrow> cells s = cells t \<and> count s = count t"

text \<open>\<^verbatim>\<open>x in list\<close> for a list of sentences goes through \<^verbatim>\<open>__eq__\<close>.\<close>

definition sentence_in :: "Sentence \<Rightarrow> Sentence list \<Rightarrow> bool" where
  "sentence_in s ks \<longleftrightarrow> list_ex (sentence_eq s) ks"

definition known_mines :: "Sentence \<Rightarrow> cell set" where
  "known_mines s = (if count s = int (card (cells s)) then cells s else {})"

definition known_safes :: "Sentence \<Rightarrow> cell set" where
  "known_safes s = (if count s = 0 then cells s else {})"

text \<open>\<^verbatim>\<open>Sentence.mark_mine\<close> and \<^verbatim>\<open>Sentence.mark_safe\<close>.\<close>

definition Sentence_mark_mine :: "Sentence \<Rightarrow> cell \<Rightarrow> Sentence" where
  "Sentence_mark_mine s c =
     (if c \<in> cells s
      then s\<lparr>cells := cells s - {c}, count := count s - 1, mine_cell := insert c (mine_cell s)\<rparr>
      else s)"

definition Sentence_mark_safe :: "Sentence \<Rightarrow> cell \<Rightarrow> Sentence" where
  "Sentence_mark_safe s c =
     (if c \<in> cells s
      then s\<lparr>cells := cells s - {c}, safe_cell := insert c (safe_cell s)\<rparr>
      else s)"

subsection \<open>MinesweeperAI\<close>

record MinesweeperAI =
  height :: int
  width :: int
  moves_made :: "cell set"
  mines :: "cell set"
  safes :: "cell set"
  knowledge :: "Sentence list"

text \<open>\<^verbatim>\<open>MinesweeperAI.__init__\<close>.\<close>

definition init_ai :: "int \<Rightarrow> int \<Rightarrow> MinesweeperAI" where
  "init_ai h w =
     \<lparr>height = h, width = w, moves_made = {}, mines = {}, safes = {}, knowledge = []\<rparr>"

definition mark_mine :: "MinesweeperAI \<Rightarrow> cell \<Rightarrow> MinesweeperAI" where
  "mark_mine ai c =
     ai\<lparr>mines := insert c (mines ai),
        knowledge := map (\<lambda>sentence. Sentence_mark_mine sentence c) (knowledge ai)\<rparr>"

definition mark_safe :: "MinesweeperAI \<Rightarrow> cell \<Rightarrow> MinesweeperAI" where
  "mark_safe ai c =
     ai\<lparr>safes := insert c (safes ai),
        knowledge := map (\<lambda>sentence. Sentence_mark_safe sentence c) (knowledge ai)\<rparr>"

subsection \<open>update\_knowledge\<close>

text \<open>
  The first loop of a pass: the union of \<^verbatim>\<open>known_mines()\<close> and of \<^verbatim>\<open>known_safes()\<close>
  over the knowledge list (\<^verbatim>\<open>new_mines\<close>, \<^verbatim>\<open>new_safes\<close>).
\<close>

definition collect_step :: "cell set \<times> cell set \<Rightarrow> Sentence \<Rightarrow> cell set \<times> cell set" where
  "collect_step acc sentence =
     (let mines' = known_mines sentence; safes' = known_safes sentence
      in (if mines' \<noteq> {} then fst acc \<union> mines' else fst acc,
          if safes' \<noteq> {} then snd acc \<union> safes' else snd acc))"

definition collect_known :: "Sentence list \<Rightarrow> cell set \<times> cell set" where
  "collect_known ks = foldl collect_step ({}, {}) ks"

text \<open>
  \<^verbatim>\<open>for mine in new_mines\<close> and \<^verbatim>\<open>for safe in new_safes\<close>, over a given iteration
  order; the second component is the flag \<^verbatim>\<open>updated\<close>.
\<close>

definition mine_step :: "MinesweeperAI \<times> bool \<Rightarrow> cell \<Rightarrow> MinesweeperAI \<times> bool" where
  "mine_step st mine =
     (if mine \<notin> mines (fst st) then (mark_mine (fst st) mine, True) else st)"

definition safe_step :: "MinesweeperAI \<times> bool \<Rightarrow> cell \<Rightarrow> MinesweeperAI \<times> bool" where
  "safe_step st safe = (mark_safe (fst st) safe, True)"

definition mark_new_mines :: "cell list \<Rightarrow> MinesweeperAI \<times> bool \<Rightarrow> MinesweeperAI \<times> bool" where
  "mark_new_mines new_mines st = foldl mine_step st new_mines"

definition mark_new_safes :: "cell list \<Rightarrow> MinesweeperAI \<times> bool \<Rightarrow> MinesweeperAI \<times> bool" where
  "mark_new_safes new_safes st = foldl safe_step st new_safes"

text \<open>\<^verbatim>\<open>self.knowledge = [sentence_ for sentence_ in self.knowledge if sentence_.cells]\<close>\<close>

definition clear_empty :: "MinesweeperAI \<Rightarrow> MinesweeperAI" where
  "clear_empty ai = ai\<lparr>knowledge := filter (\<lambda>sentence. cells sentence \<noteq> {}) (knowledge ai)\<rparr>"

text \<open>
  The body of the two nested loops over \<^verbatim>\<open>self.knowledge\<close>, for one pair
  \<^verbatim>\<open>(sentence_1, sentence_2)\<close>; the accumulator is \<^verbatim>\<open>(new_sentences, updated)\<close>.
\<close>

definition infer_pair ::
  "Sentence list \<Rightarrow> Sentence \<Rightarrow> Sentence list \<times> bool \<Rightarrow> Sentence \<Rightarrow> Sentence list \<times> bool" where
  "infer_pair ks sentence_1 acc sentence_2 =
     (if \<not> sentence_eq sentence_1 sentence_2 \<and> cells sentence_2 \<subseteq> cells sentence_1
         \<and> cells sentence_2 \<noteq> {}
      then
        (let new_cells = cells sentence_1 - cells sentence_2;
             new_count = count sentence_1 - count sentence_2
         in if new_count \<ge> 0
            then (let inferred_sentence = new_Sentence new_cells new_count
                  in if \<not> sentence_in inferred_sentence ks
                        \<and> \<not> sentence_in inferred_sentence (fst acc)
                     then (fst acc @ [inferred_sentence], True)
                     else acc)
            else acc)
      else acc)"

definition infer_sentences :: "Sentence list \<Rightarrow> Sentence list \<times> bool \<Rightarrow> Sentence list \<times> bool" where
  "infer_sentences ks acc = foldl (\<lambda>acc sentence_1. foldl (infer_pair ks sentence_1) acc ks) acc ks"

text \<open>
  The state when the pairwise step of a pass begins: known mines and safes marked,
  empty sentences dropped. Python leaves the iteration order of a set open; the marking
  loops are run in ascending order here, and \<open>mark_new_mines_order\<close> and
  \<open>mark_new_safes_order\<close> below show that the order does not matter.
\<close>

definition mark_phase :: "MinesweeperAI \<Rightarrow> MinesweeperAI \<times> bool" where
  "mark_phase ai =
     (let new = collect_known (knowledge ai);
          st1 = mark_new_mines (sorted_list_of_set (fst new)) (ai, False);
          st2 = mark_new_safes (sorted_list_of_set (snd new)) st1
      in (clear_empty (fst st2), snd st2))"

text \<open>One iteration of the \<^verbatim>\<open>while updated\<close> loop: the new state and the flag.\<close>

definition update_pass :: "MinesweeperAI \<Rightarrow> MinesweeperAI \<times> bool" where
  "update_pass ai =
     (let st = mark_phase ai;
          inferred = infer_sentences (knowledge (fst st)) ([], snd st)
      in ((fst st)\<lparr>knowledge := knowledge (fst st) @ fst inferred\<rparr>, snd inferred))"

text \<open>
  The loop itself. It need not end, so the result is an option: \<open>None\<close> is the loop
  that runs forever.
\<close>

partial_function (option) update_knowledge :: "MinesweeperAI \<Rightarrow> MinesweeperAI option" where
  "update_knowledge ai =
     (let st = update_pass ai
      in if snd st then update_knowledge (fst st) else Some (fst st))"

declare update_knowledge.simps [code]

subsection \<open>add\_knowledge\<close>

text \<open>
  The body of the two nested \<^verbatim>\<open>range\<close> loops for one \<^verbatim>\<open>(row, collumn)\<close>; the
  accumulator is \<^verbatim>\<open>(known_mines_count, neighbours)\<close>.
\<close>

definition visit_neighbour ::
  "MinesweeperAI \<Rightarrow> cell \<Rightarrow> int \<times> cell set \<Rightarrow> cell \<Rightarrow> int \<times> cell set" where
  "visit_neighbour ai cell acc rc =
     (if rc = cell then acc
      else if 0 \<le> fst rc \<and> fst rc < height ai \<and> 0 \<le> snd rc \<and> snd rc < width ai
      then (if rc \<in> mines ai then (fst acc + 1, snd acc)
            else if rc \<notin> safes ai then (fst acc, insert rc (snd acc))
            else acc)
      else acc)"

definition scan_neighbours :: "MinesweeperAI \<Rightarrow> cell \<Rightarrow> int \<times> cell set" where
  "scan_neighbours ai cell =
     foldl (\<lambda>acc row. foldl (\<lambda>acc collumn. visit_neighbour ai cell acc (row, collumn))
                          acc [snd cell - 1, snd cell, snd cell + 1])
           (0, {}) [fst cell - 1, fst cell, fst cell + 1]"

text \<open>
  \<^verbatim>\<open>add_knowledge\<close> up to the call of \<^verbatim>\<open>update_knowledge\<close>: the move is recorded,
  the neighbours are scanned and the new sentence is appended.
\<close>

definition record_evidence :: "MinesweeperAI \<Rightarrow> cell \<Rightarrow> int \<Rightarrow> MinesweeperAI" where
  "record_evidence ai cell cnt =
     (let ai1 = (if cell \<notin> moves_made ai
                 then ai\<lparr>moves_made := insert cell (moves_made ai),
                         safes := insert cell (safes ai)\<rparr>
                 else ai);
          scan = (if cell \<notin> moves_made ai then scan_neighbours ai1 cell else (0, {}));
          adjusted_count = cnt - fst scan
      in if snd scan \<noteq> {}
         then ai1\<lparr>knowledge := knowledge ai1 @ [new_Sentence (snd scan) adjusted_count]\<rparr>
         else ai1)"

definition add_knowledge :: "MinesweeperAI \<Rightarrow> cell \<Rightarrow> int \<Rightarrow> MinesweeperAI option" where
  "add_knowledge ai cell cnt = update_knowledge (record_evidence ai cell cnt)"

subsection \<open>Move selection\<close>

text \<open>
  \<^verbatim>\<open>make_safe_move\<close> returns the first cell of \<^verbatim>\<open>self.safes\<close>, in the iteration
  order of the set, that is not in \<^verbatim>\<open>self.moves_made\<close>. The order is an argument:
  any list that enumerates \<open>safes\<close>. The agent is returned with the move, as the method
  leaves it.
\<close>

definition make_safe_move :: "cell list \<Rightarrow> MinesweeperAI \<Rightarrow> cell option \<times> MinesweeperAI" where
  "make_safe_move order ai = (find (\<lambda>move. move \<notin> moves_made ai) order, ai)"

text \<open>
  \<^verbatim>\<open>make_random_move\<close>: \<^verbatim>\<open>random.choice\<close> over the list of the remaining cells; the
  random draw is the argument \<open>r\<close>.
\<close>

definition make_random_move :: "nat \<Rightarrow> MinesweeperAI \<Rightarrow> cell option \<times> MinesweeperAI" where
  "make_random_move r ai =
     (let all_cells = {0..<height ai} \<times> {0..<width ai};
          possible_moves = sorted_list_of_set (all_cells - moves_made ai - mines ai)
      in if possible_moves \<noteq> []
         then (Some (possible_moves ! (r mod length possible_moves)), ai)
         else (None, ai))"

subsection \<open>Notions used to state the properties\<close>

text \<open>Every Python set is finite; this says so of the cells of the sentences of a list.\<close>

definition finite_sentences :: "Sentence list \<Rightarrow> bool" where
  "finite_sentences ks \<longleftrightarrow> list_all (\<lambda>s. finite (cells s)) ks"

text \<open>The three sets of cells of the agent before and after an operation.\<close>

definition grows :: "MinesweeperAI \<Rightarrow> MinesweeperAI \<Rightarrow> bool" where
  "grows ai ai' \<longleftrightarrow>
     moves_made ai \<subseteq> moves_made ai' \<and> safes ai \<subseteq> safes ai' \<and> mines ai \<subseteq> mines ai'"

text \<open>
  The neighbours of a cell within the grid, as the specification words them: the up to
  eight cells one row and one column away at most, the cell itself left out.
\<close>

definition in_bounds_neighbours :: "MinesweeperAI \<Rightarrow> cell \<Rightarrow> cell set" where
  "in_bounds_neighbours ai cell =
     {(row, col). fst cell - 1 \<le> row \<and> row \<le> fst cell + 1 \<and>
                  snd cell - 1 \<le> col \<and> col \<le> snd cell + 1 \<and> (row, col) \<noteq> cell \<and>
                  0 \<le> row \<and> row < height ai \<and> 0 \<le> col \<and> col < width ai}"

text \<open>
  The pairwise step of a pass: the pairs it acts on, the sentence it derives from a pair,
  and what the two loops do to the accumulator \<^verbatim>\<open>(new_sentences, updated)\<close>: the list
  grows at its end only, by sentences of non-negative count that are derived from a pair
  and are not in the knowledge list, and the flag is raised exactly when the list grows.
\<close>

definition derived :: "Sentence \<Rightarrow> Sentence \<Rightarrow> Sentence" where
  "derived A B = new_Sentence (cells A - cells B) (count A - count B)"

definition subset_pair :: "Sentence \<Rightarrow> Sentence \<Rightarrow> bool" where
  "subset_pair A B \<longleftrightarrow> \<not> sentence_eq A B \<and> cells B \<subseteq> cells A \<and> cells B \<noteq> {}"

definition extends :: "Sentence list \<Rightarrow> Sentence list \<times> bool \<Rightarrow> Sentence list \<times> bool \<Rightarrow> bool" where
  "extends ks acc acc' \<longleftrightarrow>
     (\<exists>new. fst acc' = fst acc @ new \<and> (snd acc' \<longleftrightarrow> snd acc \<or> new \<noteq> []) \<and>
        (\<forall>s \<in> set new. 0 \<le> count s \<and> \<not> sentence_in s ks \<and>
           (\<exists>A \<in> set ks. \<exists>B \<in> set ks. subset_pair A B \<and> s = derived A B)))"

text \<open>
  A list of sentences is consistent with a placement \<open>M\<close> of the mines when every sentence
  is true of it: its count is the number of its cells that are in \<open>M\<close>. An agent is sound
  for \<open>M\<close> when, besides, its mines are mines of \<open>M\<close> and its safes are not.
\<close>

definition consistent :: "cell set \<Rightarrow> Sentence list \<Rightarrow> bool" where
  "consistent M ks \<longleftrightarrow>
     list_all (\<lambda>s. finite (cells s) \<and> count s = int (card (cells s \<inter> M))) ks"

definition sound :: "cell set \<Rightarrow> MinesweeperAI \<Rightarrow> bool" where
  "sound M ai \<longleftrightarrow> mines ai \<subseteq> M \<and> safes ai \<inter> M = {} \<and> consistent M (knowledge ai)"

text \<open>
  The cells that occur in the sentences of a list, the non-empty sets of cells of its
  sentences, and the pair of numbers that gets smaller, in the lexicographic order, with
  every pass that reports a change on a consistent list.
\<close>

definition unresolved :: "Sentence list \<Rightarrow> cell set" where
  "unresolved ks = \<Union> (cells ` set ks)"

definition cell_sets :: "Sentence list \<Rightarrow> cell set set" where
  "cell_sets ks = cells ` set ks - {{}}"

definition pass_measure :: "MinesweeperAI \<Rightarrow> nat \<times> nat" where
  "pass_measure ai =
     (card (unresolved (knowledge ai)),
      2 ^ card (unresolved (knowledge ai)) - card (cell_sets (knowledge ai)))"

text \<open>
  The invariant of the specification: \<open>safes\<close> and \<open>mines\<close> are disjoint and no
  sentence has a cell that is in one of them.
\<close>

definition disjoint_inv :: "MinesweeperAI \<Rightarrow> bool" where
  "disjoint_inv ai \<longleftrightarrow>
     safes ai \<inter> mines ai = {} \<and>
     list_all (\<lambda>s. cells s \<inter> (safes ai \<union> mines ai) = {}) (knowledge ai)"

subsection \<open>Concrete agents\<close>

text \<open>Agents on a 3 by 3 board at which the theorems below are evaluated.\<close>

definition played_one :: MinesweeperAI where
  "played_one = \<lparr>height = 3, width = 3, moves_made = {(0, 0)}, mines = {},
                 safes = {(0, 0), (0, 1)}, knowledge = []\<rparr>"

definition played_all :: MinesweeperAI where
  "played_all = \<lparr>height = 3, width = 3, moves_made = {(0, 0), (0, 1)}, mines = {},
                 safes = {(0, 0), (0, 1)}, knowledge = []\<rparr>"

definition two_known :: MinesweeperAI where
  "two_known = \<lparr>height = 3, width = 3, moves_made = {(0, 0)}, mines = {}, safes = {(0, 0)},
                knowledge = [new_Sentence {(0, 1), (1, 0)} 2, new_Sentence {(1, 1), (2, 2)} 0]\<rparr>"

definition two_known_result :: MinesweeperAI where
  "two_known_result = \<lparr>height = 3, width = 3, moves_made = {(0, 0)}, mines = {(0, 1), (1, 0)},
                safes = {(0, 0), (1, 1), (2, 2)}, knowledge = []\<rparr>"

definition subset_law_agent :: MinesweeperAI where
  "subset_law_agent = \<lparr>height = 3, width = 3, moves_made = {}, mines = {}, safes = {},
     knowledge = [new_Sentence {(0, 0), (0, 1), (0, 2)} 1, new_Sentence {(0, 0), (0, 1)} 1]\<rparr>"

definition both_safe_agent :: MinesweeperAI where
  "both_safe_agent = \<lparr>height = 3, width = 3, moves_made = {}, mines = {}, safes = {},
     knowledge = [new_Sentence {(0, 0), (0, 1)} 0, new_Sentence {(0, 0)} 0]\<rparr>"

definition first_move :: MinesweeperAI where
  "first_move = \<lparr>height = 3, width = 3, moves_made = {(0, 0)}, mines = {}, safes = {(0, 0)},
     knowledge = [new_Sentence {(0, 1), (1, 0), (1, 1)} 1]\<rparr>"

definition marked_by_hand :: MinesweeperAI where
  "marked_by_hand = \<lparr>height = 3, width = 3, moves_made = {(0, 0)}, mines = {},
     safes = {(0, 0), (0, 1), (1, 0)},
     knowledge = [\<lparr>cells = {(1, 1)}, count = 1, mine_cell = {}, safe_cell = {(0, 1), (1, 0)}\<rparr>]\<rparr>"

definition marked_by_hand_result :: MinesweeperAI where
  "marked_by_hand_result = \<lparr>height = 3, width = 3, moves_made = {(0, 0)}, mines = {(1, 1)},
     safes = {(0, 0), (0, 1), (1, 0)}, knowledge = []\<rparr>"

definition second_move :: MinesweeperAI where
  "second_move = \<lparr>height = 3, width = 3, moves_made = {(0, 0), (0, 1)}, mines = {},
     safes = {(0, 0), (0, 1)},
     knowledge = [new_Sentence {(0, 1), (1, 0), (1, 1)} 1,
                  new_Sentence {(0, 2), (1, 0), (1, 1), (1, 2)} 1]\<rparr>"

definition subset_law_result :: MinesweeperAI where
  "subset_law_result = \<lparr>height = 3, width = 3, moves_made = {}, mines = {}, safes = {(0, 2)},
     knowledge = [\<lparr>cells = {(0, 0), (0, 1)}, count = 1, mine_cell = {}, safe_cell = {(0, 2)}\<rparr>,
                  new_Sentence {(0, 0), (0, 1)} 1]\<rparr>"

definition looping_agent :: MinesweeperAI where
  "looping_agent = \<lparr>height = 3, width = 3, moves_made = {}, mines = {}, safes = {},
     knowledge = [new_Sentence {(0, 0), (0, 1), (0, 2)} 1, new_Sentence {(0, 0), (0, 1), (0, 2)} 2]\<rparr>"

definition looping_agent_next :: MinesweeperAI where
  "looping_agent_next = \<lparr>height = 3, width = 3, moves_made = {}, mines = {}, safes = {},
     knowledge = [new_Sentence {(0, 0), (0, 1), (0, 2)} 1, new_Sentence {(0, 0), (0, 1), (0, 2)} 2,
                  new_Sentence {} 1]\<rparr>"

definition corner_agent :: MinesweeperAI where
  "corner_agent = \<lparr>height = 3, width = 3, moves_made = {}, mines = {(0, 1)}, safes = {(1, 0)},
     knowledge = []\<rparr>"

section \<open>Basic facts\<close>

subsection \<open>The loop of update\_knowledge\<close>

text \<open>
  Two rules for the loop when it returns: the result is the outcome of a last pass that
  reported no change, and a property that every pass preserves holds of the result.
\<close>

lemma update_knowledge_last_pass:
  assumes ret: "update_knowledge ai = Some ai'"
    and init: "P ai"
    and step: "\<And>a. P a \<Longrightarrow> snd (update_pass a) \<Longrightarrow> P (fst (update_pass a))"
  shows "\<exists>a. P a \<and> \<not> snd (update_pass a) \<and> ai' = fst (update_pass a)"
proof -
  have "P ai \<longrightarrow> (\<exists>a. P a \<and> \<not> snd (update_pass a) \<and> ai' = fst (update_pass a))"
  proof (rule update_knowledge.raw_induct
      [where P = "\<lambda>x y. P x \<longrightarrow> (\<exists>a. P a \<and> \<not> snd (update_pass a) \<and> y = fst (update_pass a))",
        OF _ ret])
    fix f x y
    assume IH: "\<And>x y. f x = Some y \<Longrightarrow>
        P x \<longrightarrow> (\<exists>a. P a \<and> \<not> snd (update_pass a) \<and> y = fst (update_pass a))"
      and eq: "(let st = update_pass x in if snd st then f (fst st) else Some (fst st)) = Some y"
    show "P x \<longrightarrow> (\<exists>a. P a \<and> \<not> snd (update_pass a) \<and> y = fst (update_pass a))"
    proof
      assume px: "P x"
      show "\<exists>a. P a \<and> \<not> snd (update_pass a) \<and> y = fst (update_pass a)"
      proof (cases "snd (update_pass x)")
        case True
        with eq have "f (fst (update_pass x)) = Some y" by (simp add: Let_def)
        moreover from px True have "P (fst (update_pass x))" by (rule step)
        ultimately show ?thesis using IH by blast
      next
        case False
        with eq have "y = fst (update_pass x)" by (simp add: Let_def)
        with px False show ?thesis by blast
      qed
    qed
  qed
  with init show ?thesis by simp
qed

lemma update_knowledge_invariant:
  assumes "update_knowledge ai = Some ai'"
    and "P ai"
    and "\<And>a. P a \<Longrightarrow> P (fst (update_pass a))"
  shows "P ai'"
  using update_knowledge_last_pass [of ai ai' P] assms by blast

subsection \<open>What a pass leaves untouched\<close>

lemma foldl_collect_step:
  "foldl collect_step acc ks =
     (fst acc \<union> \<Union> (known_mines ` set ks), snd acc \<union> \<Union> (known_safes ` set ks))"
  by (induction ks arbitrary: acc) (auto simp: collect_step_def Let_def)

lemma collect_known_eq:
  "collect_known ks = (\<Union> (known_mines ` set ks), \<Union> (known_safes ` set ks))"
  by (simp add: collect_known_def foldl_collect_step)

lemma Sentence_mark_mine_twice:
  "Sentence_mark_mine (Sentence_mark_mine s c) c = Sentence_mark_mine s c"
  by (simp add: Sentence_mark_mine_def)

lemma Sentence_mark_safe_twice:
  "Sentence_mark_safe (Sentence_mark_safe s c) c = Sentence_mark_safe s c"
  by (simp add: Sentence_mark_safe_def)

lemma known_mines_subset: "known_mines s \<subseteq> cells s"
  by (simp add: known_mines_def)

lemma known_safes_subset: "known_safes s \<subseteq> cells s"
  by (simp add: known_safes_def)

lemma mark_mine_fields [simp]:
  "height (mark_mine ai c) = height ai" "width (mark_mine ai c) = width ai"
  "moves_made (mark_mine ai c) = moves_made ai" "safes (mark_mine ai c) = safes ai"
  "mines (mark_mine ai c) = insert c (mines ai)"
  "knowledge (mark_mine ai c) = map (\<lambda>s. Sentence_mark_mine s c) (knowledge ai)"
  by (simp_all add: mark_mine_def)

lemma mark_safe_fields [simp]:
  "height (mark_safe ai c) = height ai" "width (mark_safe ai c) = width ai"
  "moves_made (mark_safe ai c) = moves_made ai" "mines (mark_safe ai c) = mines ai"
  "safes (mark_safe ai c) = insert c (safes ai)"
  "knowledge (mark_safe ai c) = map (\<lambda>s. Sentence_mark_safe s c) (knowledge ai)"
  by (simp_all add: mark_safe_def)

lemma mark_new_mines_Nil [simp]: "mark_new_mines [] st = st"
  by (simp add: mark_new_mines_def)

lemma mark_new_mines_Cons [simp]:
  "mark_new_mines (m # ms) st = mark_new_mines ms (mine_step st m)"
  by (simp add: mark_new_mines_def)

lemma mark_new_safes_Nil [simp]: "mark_new_safes [] st = st"
  by (simp add: mark_new_safes_def)

lemma mark_new_safes_Cons [simp]:
  "mark_new_safes (m # ms) st = mark_new_safes ms (safe_step st m)"
  by (simp add: mark_new_safes_def)

lemma mark_new_mines_frame:
  "height (fst (mark_new_mines ms st)) = height (fst st) \<and>
   width (fst (mark_new_mines ms st)) = width (fst st) \<and>
   moves_made (fst (mark_new_mines ms st)) = moves_made (fst st) \<and>
   safes (fst (mark_new_mines ms st)) = safes (fst st) \<and>
   mines (fst (mark_new_mines ms st)) = mines (fst st) \<union> set ms"
  by (induction ms arbitrary: st) (auto simp: mine_step_def)

lemma mark_new_safes_frame:
  "height (fst (mark_new_safes ms st)) = height (fst st) \<and>
   width (fst (mark_new_safes ms st)) = width (fst st) \<and>
   moves_made (fst (mark_new_safes ms st)) = moves_made (fst st) \<and>
   mines (fst (mark_new_safes ms st)) = mines (fst st) \<and>
   safes (fst (mark_new_safes ms st)) = safes (fst st) \<union> set ms"
  by (induction ms arbitrary: st) (auto simp: safe_step_def)

lemma clear_empty_fields [simp]:
  "height (clear_empty ai) = height ai" "width (clear_empty ai) = width ai"
  "moves_made (clear_empty ai) = moves_made ai" "mines (clear_empty ai) = mines ai"
  "safes (clear_empty ai) = safes ai"
  "knowledge (clear_empty ai) = filter (\<lambda>s. cells s \<noteq> {}) (knowledge ai)"
  by (simp_all add: clear_empty_def)

lemma mark_phase_frame:
  "height (fst (mark_phase ai)) = height ai \<and>
   width (fst (mark_phase ai)) = width ai \<and>
   moves_made (fst (mark_phase ai)) = moves_made ai \<and>
   mines (fst (mark_phase ai)) =
     mines ai \<union> set (sorted_list_of_set (\<Union> (known_mines ` set (knowledge ai)))) \<and>
   safes (fst (mark_phase ai)) =
     safes ai \<union> set (sorted_list_of_set (\<Union> (known_safes ` set (knowledge ai))))"
  by (simp add: mark_phase_def Let_def collect_known_eq mark_new_mines_frame mark_new_safes_frame)

lemma update_pass_frame:
  "height (fst (update_pass ai)) = height ai \<and>
   width (fst (update_pass ai)) = width ai \<and>
   moves_made (fst (update_pass ai)) = moves_made ai \<and>
   mines (fst (update_pass ai)) =
     mines ai \<union> set (sorted_list_of_set (\<Union> (known_mines ` set (knowledge ai)))) \<and>
   safes (fst (update_pass ai)) =
     safes ai \<union> set (sorted_list_of_set (\<Union> (known_safes ` set (knowledge ai))))"
  by (simp add: update_pass_def Let_def mark_phase_frame)

lemma grows_refl: "grows ai ai"
  by (simp add: grows_def)

lemma grows_update_pass: "grows ai (fst (update_pass ai))"
  by (simp add: grows_def update_pass_frame)

lemma grows_trans: "grows a b \<Longrightarrow> grows b c \<Longrightarrow> grows a c"
  by (auto simp: grows_def)

lemma grows_update_knowledge:
  assumes "update_knowledge ai = Some ai'"
  shows "grows ai ai'"
  by (rule update_knowledge_invariant [OF assms, where P = "grows ai"])
     (auto intro: grows_refl grows_trans grows_update_pass)

lemma record_evidence_fields:
  "height (record_evidence ai cell cnt) = height ai"
  "width (record_evidence ai cell cnt) = width ai"
  "mines (record_evidence ai cell cnt) = mines ai"
  "moves_made (record_evidence ai cell cnt) = insert cell (moves_made ai)"
  "safes (record_evidence ai cell cnt) = (if cell \<in> moves_made ai then safes ai else insert cell (safes ai))"
  by (auto simp: record_evidence_def Let_def)

lemma finite_sentences_iff: "finite_sentences ks \<longleftrightarrow> (\<forall>s \<in> set ks. finite (cells s))"
  by (simp add: finite_sentences_def list_all_iff)

lemma finite_known:
  assumes "finite_sentences ks"
  shows "finite (\<Union> (known_mines ` set ks))" "finite (\<Union> (known_safes ` set ks))"
  using assms by (auto simp: finite_sentences_iff known_mines_def known_safes_def)

lemma update_pass_marks:
  assumes "finite_sentences (knowledge ai)"
  shows "mines (fst (update_pass ai)) = mines ai \<union> \<Union> (known_mines ` set (knowledge ai))"
    and "safes (fst (update_pass ai)) = safes ai \<union> \<Union> (known_safes ` set (knowledge ai))"
  using finite_known [OF assms] by (simp_all add: update_pass_frame)

lemma grows_first_pass:
  assumes "update_knowledge ai = Some ai'"
  shows "grows (fst (update_pass ai)) ai'"
proof (cases "snd (update_pass ai)")
  case True
  with assms have "update_knowledge (fst (update_pass ai)) = Some ai'"
    by (subst (asm) update_knowledge.simps) (simp add: Let_def)
  then show ?thesis by (rule grows_update_knowledge)
next
  case False
  with assms have "ai' = fst (update_pass ai)"
    by (subst (asm) update_knowledge.simps) (simp add: Let_def)
  then show ?thesis by (simp add: grows_refl)
qed

subsection \<open>The scan of the neighbours\<close>

lemma foldl_visit_neighbour:
  "distinct xs \<Longrightarrow>
   foldl (visit_neighbour ai cell) acc xs =
     (fst acc + int (card {x \<in> set xs. x \<noteq> cell \<and> 0 \<le> fst x \<and> fst x < height ai \<and>
                                   0 \<le> snd x \<and> snd x < width ai \<and> x \<in> mines ai}),
      snd acc \<union> {x \<in> set xs. x \<noteq> cell \<and> 0 \<le> fst x \<and> fst x < height ai \<and>
                                   0 \<le> snd x \<and> snd x < width ai \<and> x \<notin> mines ai \<and> x \<notin> safes ai})"
proof (induction xs arbitrary: acc)
  case Nil
  then show ?case by simp
next
  case (Cons x xs)
  let ?P = "\<lambda>x. x \<noteq> cell \<and> 0 \<le> fst x \<and> fst x < height ai \<and>
                                   0 \<le> snd x \<and> snd x < width ai \<and> x \<in> mines ai"
  have fin: "finite {y \<in> set xs. ?P y}" by simp
  have notin: "x \<notin> {y \<in> set xs. ?P y}" using Cons.prems by simp
  have card: "int (card {y \<in> set (x # xs). ?P y}) = (if ?P x then 1 else 0) + int (card {y \<in> set xs. ?P y})"
  proof (cases "?P x")
    case True
    then have "{y \<in> set (x # xs). ?P y} = insert x {y \<in> set xs. ?P y}" by auto
    then show ?thesis using True card_insert_disjoint [OF fin notin] by simp
  next
    case False
    then have "{y \<in> set (x # xs). ?P y} = {y \<in> set xs. ?P y}" by auto
    then show ?thesis using False by simp
  qed
  from Cons.prems have d: "distinct xs" by simp
  show ?case
    unfolding foldl_Cons Cons.IH [OF d] card
    by (auto simp: visit_neighbour_def)
qed

lemma scan_neighbours_as_fold:
  "scan_neighbours ai (r, c) =
     foldl (visit_neighbour ai (r, c)) (0, {})
       [(r - 1, c - 1), (r - 1, c), (r - 1, c + 1),
        (r, c - 1), (r, c), (r, c + 1),
        (r + 1, c - 1), (r + 1, c), (r + 1, c + 1)]"
  by (simp add: scan_neighbours_def)

lemma nine_cells:
  "set [(r - 1, c - 1), (r - 1, c), (r - 1, c + 1),
        (r, c - 1), (r, c), (r, c + 1),
        (r + 1, c - 1), (r + 1, c), (r + 1, c + 1)] =
   {(row, col). (r::int) - 1 \<le> row \<and> row \<le> r + 1 \<and> (c::int) - 1 \<le> col \<and> col \<le> c + 1}"
  (is "?L = ?R")
proof
  show "?L \<subseteq> ?R" by auto
  show "?R \<subseteq> ?L"
  proof
    fix x assume "x \<in> ?R"
    then obtain row col where x: "x = (row, col)" and b: "r - 1 \<le> row" "row \<le> r + 1" "c - 1 \<le> col" "col \<le> c + 1"
      by auto
    from b have "row = r - 1 \<or> row = r \<or> row = r + 1" by arith
    moreover from b have "col = c - 1 \<or> col = c \<or> col = c + 1" by arith
    ultimately show "x \<in> ?L" unfolding x by auto
  qed
qed

lemma scan_neighbours_eq:
  "scan_neighbours ai cell =
     (int (card (in_bounds_neighbours ai cell \<inter> mines ai)),
      in_bounds_neighbours ai cell - mines ai - safes ai)"
proof -
  obtain r c where cell: "cell = (r, c)" by (cases cell)
  have d: "distinct [(r - 1, c - 1), (r - 1, c), (r - 1, c + 1),
        (r, c - 1), (r, c), (r, c + 1),
        (r + 1, c - 1), (r + 1, c), (r + 1, c + 1)]" by simp
  have A: "{x \<in> {(row, col). r - 1 \<le> row \<and> row \<le> r + 1 \<and> c - 1 \<le> col \<and> col \<le> c + 1}.
            x \<noteq> (r, c) \<and> 0 \<le> fst x \<and> fst x < height ai \<and> 0 \<le> snd x \<and> snd x < width ai \<and> x \<in> mines ai}
          = in_bounds_neighbours ai (r, c) \<inter> mines ai"
    by (auto simp: in_bounds_neighbours_def)
  have B: "{x \<in> {(row, col). r - 1 \<le> row \<and> row \<le> r + 1 \<and> c - 1 \<le> col \<and> col \<le> c + 1}.
            x \<noteq> (r, c) \<and> 0 \<le> fst x \<and> fst x < height ai \<and> 0 \<le> snd x \<and> snd x < width ai \<and>
            x \<notin> mines ai \<and> x \<notin> safes ai}
          = in_bounds_neighbours ai (r, c) - mines ai - safes ai"
    by (auto simp: in_bounds_neighbours_def)
  show ?thesis
    unfolding cell scan_neighbours_as_fold foldl_visit_neighbour [OF d] nine_cells A B
    by simp
qed

lemma in_bounds_neighbours_frame:
  "in_bounds_neighbours (ai\<lparr>moves_made := mm, safes := sf\<rparr>) cell = in_bounds_neighbours ai cell"
  by (simp add: in_bounds_neighbours_def)

lemma in_bounds_neighbours_not_self: "cell \<notin> in_bounds_neighbours ai cell"
  by (auto simp: in_bounds_neighbours_def)

lemma in_bounds_neighbours_corner:
  "in_bounds_neighbours (init_ai 3 3) (0, 0) = {(0, 1), (1, 0), (1, 1)}"
  by (auto simp: in_bounds_neighbours_def init_ai_def)

lemma record_evidence_new:
  assumes "cell \<notin> moves_made ai"
  shows "record_evidence ai cell cnt =
      ai\<lparr>moves_made := insert cell (moves_made ai), safes := insert cell (safes ai),
         knowledge :=
           (if in_bounds_neighbours ai cell - mines ai - safes ai \<noteq> {}
            then knowledge ai @ [new_Sentence (in_bounds_neighbours ai cell - mines ai - safes ai)
                   (cnt - int (card (in_bounds_neighbours ai cell \<inter> mines ai)))]
            else knowledge ai)\<rparr>"
proof -
  let ?ai1 = "ai\<lparr>moves_made := insert cell (moves_made ai), safes := insert cell (safes ai)\<rparr>"
  let ?N = "in_bounds_neighbours ai cell - mines ai - safes ai"
  have "in_bounds_neighbours ai cell - mines ai - insert cell (safes ai) = ?N"
    using in_bounds_neighbours_not_self [of cell ai] by auto
  then have scan: "scan_neighbours ?ai1 cell =
      (int (card (in_bounds_neighbours ai cell \<inter> mines ai)), ?N)"
    by (simp only: scan_neighbours_eq in_bounds_neighbours_frame) simp
  have "record_evidence ai cell cnt =
      (if ?N \<noteq> {}
       then ?ai1\<lparr>knowledge := knowledge ?ai1 @
              [new_Sentence ?N (cnt - int (card (in_bounds_neighbours ai cell \<inter> mines ai)))]\<rparr>
       else ?ai1)"
    unfolding record_evidence_def Let_def using assms
    by (simp only: if_True not_False_eq_True scan fst_conv snd_conv)
  then show ?thesis by (simp split: if_splits)
qed

lemma finite_in_bounds_neighbours: "finite (in_bounds_neighbours ai cell)"
proof -
  obtain r c where cell: "cell = (r, c)" by (cases cell)
  have "in_bounds_neighbours ai (r, c) \<subseteq> set [(r - 1, c - 1), (r - 1, c), (r - 1, c + 1),
        (r, c - 1), (r, c), (r, c + 1), (r + 1, c - 1), (r + 1, c), (r + 1, c + 1)]"
    unfolding nine_cells by (auto simp: in_bounds_neighbours_def)
  then show ?thesis unfolding cell by (rule finite_subset) simp
qed

lemma card_in_bounds_neighbours: "card (in_bounds_neighbours ai cell) \<le> 8"
proof -
  obtain r c where cell: "cell = (r, c)" by (cases cell)
  let ?around = "[(r - 1, c - 1), (r - 1, c), (r - 1, c + 1),
        (r, c - 1), (r, c + 1), (r + 1, c - 1), (r + 1, c), (r + 1, c + 1)]"
  have "in_bounds_neighbours ai (r, c) \<subseteq> set [(r - 1, c - 1), (r - 1, c), (r - 1, c + 1),
        (r, c - 1), (r, c), (r, c + 1), (r + 1, c - 1), (r + 1, c), (r + 1, c + 1)] - {(r, c)}"
    unfolding nine_cells by (auto simp: in_bounds_neighbours_def)
  also have "\<dots> \<subseteq> set ?around" by auto
  finally have "card (in_bounds_neighbours ai (r, c)) \<le> card (set ?around)"
    by (intro card_mono) simp_all
  also have "\<dots> \<le> length ?around" by (rule card_length)
  finally show ?thesis by (simp add: cell)
qed

lemma in_bounds_neighbours_corner_agent:
  "in_bounds_neighbours corner_agent (0, 0) = {(0, 1), (1, 0), (1, 1)}"
  by (auto simp: in_bounds_neighbours_def corner_agent_def)

lemma in_bounds_neighbours_single: "in_bounds_neighbours (init_ai 1 1) (0, 0) = {}"
  by (auto simp: in_bounds_neighbours_def init_ai_def)

subsection \<open>The order in which a set is iterated\<close>

text \<open>
  Marking two cells one after the other gives the same agent and the same flag in either
  order, so the two marking loops give the same result for every order in which Python
  may enumerate the set.
\<close>

lemma foldl_move_front:
  assumes comm: "\<And>s x y. f (f s x) y = f (f s y) x"
  shows "foldl f s (ys1 @ x # ys2) = foldl f (f s x) (ys1 @ ys2)"
proof (induction ys1 arbitrary: s)
  case Nil
  show ?case by simp
next
  case (Cons y ys1)
  have "foldl f s ((y # ys1) @ x # ys2) = foldl f (f s y) (ys1 @ x # ys2)"
    by (simp only: append_Cons foldl_Cons)
  also have "\<dots> = foldl f (f (f s y) x) (ys1 @ ys2)" by (rule Cons.IH)
  also have "f (f s y) x = f (f s x) y" by (rule comm)
  finally show ?case by (simp only: append_Cons foldl_Cons)
qed

lemma foldl_distinct_order:
  assumes comm: "\<And>s x y. f (f s x) y = f (f s y) x"
  shows "distinct xs \<Longrightarrow> distinct ys \<Longrightarrow> set xs = set ys \<Longrightarrow> foldl f s xs = foldl f s ys"
proof (induction xs arbitrary: ys s)
  case Nil
  then show ?case by simp
next
  case (Cons x xs)
  from Cons.prems have "x \<in> set ys" by auto
  then obtain ys1 ys2 where ys: "ys = ys1 @ x # ys2" by (auto dest: split_list)
  from Cons.prems have d: "distinct (ys1 @ ys2)" and nx: "x \<notin> set (ys1 @ ys2)" "x \<notin> set xs"
    by (auto simp: ys)
  from Cons.prems nx have "set xs = set (ys1 @ ys2)" by (auto simp: ys)
  with Cons.prems d have "foldl f (f s x) xs = foldl f (f s x) (ys1 @ ys2)"
    by (intro Cons.IH) auto
  moreover have "foldl f s ys = foldl f (f s x) (ys1 @ ys2)"
    unfolding ys by (rule foldl_move_front [of f, OF comm])
  ultimately show ?case by (simp only: foldl_Cons)
qed

lemma Sentence_mark_mine_commute:
  "Sentence_mark_mine (Sentence_mark_mine s a) b = Sentence_mark_mine (Sentence_mark_mine s b) a"
proof -
  have "C - {a} - {b} = C - {b} - {a}" for C :: "cell set" by auto
  then show ?thesis
    by (cases "a = b") (auto simp: Sentence_mark_mine_def insert_commute)
qed

lemma Sentence_mark_safe_commute:
  "Sentence_mark_safe (Sentence_mark_safe s a) b = Sentence_mark_safe (Sentence_mark_safe s b) a"
proof -
  have "C - {a} - {b} = C - {b} - {a}" for C :: "cell set" by auto
  then show ?thesis
    by (cases "a = b") (auto simp: Sentence_mark_safe_def insert_commute)
qed

lemma mark_mine_commute: "mark_mine (mark_mine ai a) b = mark_mine (mark_mine ai b) a"
  by (simp add: mark_mine_def insert_commute Sentence_mark_mine_commute)

lemma mark_safe_commute: "mark_safe (mark_safe ai a) b = mark_safe (mark_safe ai b) a"
  by (simp add: mark_safe_def insert_commute Sentence_mark_safe_commute)

lemma mine_step_commute: "mine_step (mine_step st a) b = mine_step (mine_step st b) a"
  by (cases "a = b") (auto simp: mine_step_def mark_mine_commute)

lemma safe_step_commute: "safe_step (safe_step st a) b = safe_step (safe_step st b) a"
  by (simp add: safe_step_def mark_safe_commute)

lemma mark_new_mines_order:
  assumes "finite S" "distinct xs" "set xs = S"
  shows "mark_new_mines xs st = mark_new_mines (sorted_list_of_set S) st"
  unfolding mark_new_mines_def using assms
  by (intro foldl_distinct_order mine_step_commute) simp_all

lemma mark_new_safes_order:
  assumes "finite S" "distinct xs" "set xs = S"
  shows "mark_new_safes xs st = mark_new_safes (sorted_list_of_set S) st"
  unfolding mark_new_safes_def using assms
  by (intro foldl_distinct_order safe_step_commute) simp_all

subsection \<open>The pairwise step\<close>

lemma infer_pair_cases:
  "infer_pair ks s1 acc s2 =
     (if subset_pair s1 s2 \<and> 0 \<le> count s1 - count s2 \<and> \<not> sentence_in (derived s1 s2) ks
         \<and> \<not> sentence_in (derived s1 s2) (fst acc)
      then (fst acc @ [derived s1 s2], True) else acc)"
  by (simp add: infer_pair_def subset_pair_def derived_def Let_def)

lemma sentence_in_iff: "sentence_in s ks \<longleftrightarrow> (\<exists>t \<in> set ks. cells t = cells s \<and> count t = count s)"
  by (auto simp: sentence_in_def list_ex_iff sentence_eq_def)

lemma sentence_in_append: "sentence_in s (xs @ ys) \<longleftrightarrow> sentence_in s xs \<or> sentence_in s ys"
  by (auto simp: sentence_in_iff)

lemma extends_refl: "extends ks acc acc"
  by (simp add: extends_def)

lemma extends_trans: "extends ks a b \<Longrightarrow> extends ks b c \<Longrightarrow> extends ks a c"
  unfolding extends_def
  apply (elim exE conjE)
  subgoal for n1 n2
    by (rule exI [of _ "n1 @ n2"]) auto
  done

lemma extends_infer_pair:
  "s1 \<in> set ks \<Longrightarrow> s2 \<in> set ks \<Longrightarrow> extends ks acc (infer_pair ks s1 acc s2)"
  unfolding infer_pair_cases extends_def
  by (cases "subset_pair s1 s2 \<and> 0 \<le> count s1 - count s2 \<and> \<not> sentence_in (derived s1 s2) ks
         \<and> \<not> sentence_in (derived s1 s2) (fst acc)")
     (auto simp: derived_def new_Sentence_def)

lemma extends_inner:
  "s1 \<in> set ks \<Longrightarrow> set xs \<subseteq> set ks \<Longrightarrow> extends ks acc (foldl (infer_pair ks s1) acc xs)"
proof (induction xs arbitrary: acc)
  case Nil
  then show ?case by (simp add: extends_refl)
next
  case (Cons x xs)
  have "extends ks acc (infer_pair ks s1 acc x)"
    using Cons.prems by (intro extends_infer_pair) auto
  moreover have "extends ks (infer_pair ks s1 acc x) (foldl (infer_pair ks s1) (infer_pair ks s1 acc x) xs)"
    using Cons.prems by (intro Cons.IH) auto
  ultimately show ?case by (auto intro: extends_trans)
qed

lemma extends_outer:
  "set ys \<subseteq> set ks \<Longrightarrow>
   extends ks acc (foldl (\<lambda>acc s1. foldl (infer_pair ks s1) acc ks) acc ys)"
proof (induction ys arbitrary: acc)
  case Nil
  then show ?case by (simp add: extends_refl)
next
  case (Cons y ys)
  have "extends ks acc (foldl (infer_pair ks y) acc ks)"
    using Cons.prems by (intro extends_inner) auto
  moreover have "extends ks (foldl (infer_pair ks y) acc ks)
      (foldl (\<lambda>acc s1. foldl (infer_pair ks s1) acc ks) (foldl (infer_pair ks y) acc ks) ys)"
    using Cons.prems by (intro Cons.IH) auto
  ultimately show ?case by (auto intro: extends_trans)
qed

lemma extends_infer_sentences: "extends ks acc (infer_sentences ks acc)"
  unfolding infer_sentences_def by (rule extends_outer) simp

text \<open>Every candidate of non-negative count ends up in the old or in the new list.\<close>

lemma extends_keeps:
  "extends ks a b \<Longrightarrow> sentence_in s (fst a) \<Longrightarrow> sentence_in s (fst b)"
  by (auto simp: extends_def sentence_in_append)

lemma covered_infer_pair:
  "subset_pair s1 s2 \<Longrightarrow> 0 \<le> count s1 - count s2 \<Longrightarrow>
   sentence_in (derived s1 s2) ks \<or> sentence_in (derived s1 s2) (fst (infer_pair ks s1 acc s2))"
  by (auto simp: infer_pair_cases sentence_in_append sentence_in_iff)

lemma covered_inner:
  "s1 \<in> set ks \<Longrightarrow> set xs \<subseteq> set ks \<Longrightarrow> s2 \<in> set xs \<Longrightarrow>
   subset_pair s1 s2 \<Longrightarrow> 0 \<le> count s1 - count s2 \<Longrightarrow>
   sentence_in (derived s1 s2) ks \<or>
   sentence_in (derived s1 s2) (fst (foldl (infer_pair ks s1) acc xs))"
proof (induction xs arbitrary: acc)
  case Nil
  then show ?case by simp
next
  case (Cons x xs)
  show ?case
  proof (cases "s2 = x")
    case True
    from covered_infer_pair [OF Cons.prems(4,5), of ks acc]
    show ?thesis
    proof
      assume "sentence_in (derived s1 s2) ks" then show ?thesis ..
    next
      assume "sentence_in (derived s1 s2) (fst (infer_pair ks s1 acc s2))"
      moreover have "extends ks (infer_pair ks s1 acc s2) (foldl (infer_pair ks s1) (infer_pair ks s1 acc s2) xs)"
        using Cons.prems by (intro extends_inner) auto
      ultimately show ?thesis using True by (auto dest: extends_keeps)
    qed
  next
    case False
    with Cons show ?thesis by auto
  qed
qed

lemma covered_outer:
  "set ys \<subseteq> set ks \<Longrightarrow> s1 \<in> set ys \<Longrightarrow> s2 \<in> set ks \<Longrightarrow>
   subset_pair s1 s2 \<Longrightarrow> 0 \<le> count s1 - count s2 \<Longrightarrow>
   sentence_in (derived s1 s2) ks \<or>
   sentence_in (derived s1 s2)
     (fst (foldl (\<lambda>acc s1. foldl (infer_pair ks s1) acc ks) acc ys))"
proof (induction ys arbitrary: acc)
  case Nil
  then show ?case by simp
next
  case (Cons y ys)
  show ?case
  proof (cases "s1 = y")
    case True
    have "sentence_in (derived s1 s2) ks \<or>
          sentence_in (derived s1 s2) (fst (foldl (infer_pair ks s1) acc ks))"
      using Cons.prems by (intro covered_inner) auto
    then show ?thesis
    proof
      assume "sentence_in (derived s1 s2) ks" then show ?thesis ..
    next
      assume "sentence_in (derived s1 s2) (fst (foldl (infer_pair ks s1) acc ks))"
      moreover have "extends ks (foldl (infer_pair ks s1) acc ks)
          (foldl (\<lambda>acc s1. foldl (infer_pair ks s1) acc ks) (foldl (infer_pair ks s1) acc ks) ys)"
        using Cons.prems by (intro extends_outer) auto
      ultimately show ?thesis using True by (auto dest: extends_keeps)
    qed
  next
    case False
    with Cons show ?thesis by auto
  qed
qed

lemma covered_infer_sentences:
  "s1 \<in> set ks \<Longrightarrow> s2 \<in> set ks \<Longrightarrow> subset_pair s1 s2 \<Longrightarrow> 0 \<le> count s1 - count s2 \<Longrightarrow>
   sentence_in (derived s1 s2) (ks @ fst (infer_sentences ks acc))"
  unfolding infer_sentences_def sentence_in_append
  by (rule covered_outer) auto

lemma knowledge_update_pass:
  "knowledge (fst (update_pass ai)) =
     knowledge (fst (mark_phase ai)) @
     fst (infer_sentences (knowledge (fst (mark_phase ai))) ([], snd (mark_phase ai)))"
  by (simp add: update_pass_def Let_def)

subsection \<open>A pass that reports no change\<close>

lemma mine_step_flag: "snd st \<Longrightarrow> snd (mine_step st m)"
  by (simp add: mine_step_def)

lemma mark_new_mines_flag_keeps: "snd st \<Longrightarrow> snd (mark_new_mines ms st)"
  by (induction ms arbitrary: st) (simp_all add: mine_step_flag)

lemma mark_new_mines_quiet:
  "\<not> snd (mark_new_mines ms st) \<Longrightarrow> set ms \<subseteq> mines (fst st)"
proof (induction ms arbitrary: st)
  case Nil
  then show ?case by simp
next
  case (Cons m ms)
  have in_m: "m \<in> mines (fst st)"
  proof (rule ccontr)
    assume "m \<notin> mines (fst st)"
    then have "snd (mine_step st m)" by (simp add: mine_step_def)
    then have "snd (mark_new_mines (m # ms) st)" by (simp add: mark_new_mines_flag_keeps)
    with Cons.prems show False by simp
  qed
  then have "mine_step st m = st" by (simp add: mine_step_def)
  with Cons in_m show ?case by simp
qed

lemma mark_new_mines_known:
  "set ms \<subseteq> mines (fst st) \<Longrightarrow> mark_new_mines ms st = st"
  by (induction ms arbitrary: st) (simp_all add: mine_step_def)

lemma mark_new_safes_flag: "snd (mark_new_safes ms st) \<longleftrightarrow> snd st \<or> ms \<noteq> []"
proof (induction ms arbitrary: st)
  case Nil
  then show ?case by simp
next
  case (Cons m ms)
  then show ?case by (simp add: safe_step_def)
qed

lemma known_of_clear:
  "\<Union> (known_mines ` set (filter (\<lambda>s. cells s \<noteq> {}) ks)) = \<Union> (known_mines ` set ks)"
  "\<Union> (known_safes ` set (filter (\<lambda>s. cells s \<noteq> {}) ks)) = \<Union> (known_safes ` set ks)"
  by (auto simp: known_mines_def known_safes_def split: if_splits)

lemma infer_sentences_quiet:
  "\<not> snd (infer_sentences ks acc) \<Longrightarrow> infer_sentences ks acc = acc"
  using extends_infer_sentences [of ks acc]
  by (cases acc, cases "infer_sentences ks acc") (auto simp: extends_def)

text \<open>A pass that reports no change has marked nothing and derived nothing.\<close>

lemma quiet_pass:
  assumes "\<not> snd (update_pass ai)"
  shows "set (sorted_list_of_set (\<Union> (known_mines ` set (knowledge ai)))) \<subseteq> mines ai"
    and "sorted_list_of_set (\<Union> (known_safes ` set (knowledge ai))) = []"
    and "mark_phase ai = (clear_empty ai, False)"
    and "infer_sentences (knowledge (clear_empty ai)) ([], False) = ([], False)"
    and "fst (update_pass ai) = clear_empty ai"
proof -
  let ?nm = "sorted_list_of_set (\<Union> (known_mines ` set (knowledge ai)))"
  let ?ns = "sorted_list_of_set (\<Union> (known_safes ` set (knowledge ai)))"
  have inf: "infer_sentences (knowledge (fst (mark_phase ai))) ([], snd (mark_phase ai))
      = ([], snd (mark_phase ai))"
    using assms by (intro infer_sentences_quiet) (simp add: update_pass_def Let_def)
  with assms have q: "\<not> snd (mark_phase ai)" by (simp add: update_pass_def Let_def)
  then have s: "\<not> snd (mark_new_safes ?ns (mark_new_mines ?nm (ai, False)))"
    by (simp add: mark_phase_def Let_def collect_known_eq)
  then show ns: "?ns = []" by (simp add: mark_new_safes_flag)
  from s have m: "\<not> snd (mark_new_mines ?nm (ai, False))" by (simp add: mark_new_safes_flag)
  then show nm: "set ?nm \<subseteq> mines ai" using mark_new_mines_quiet by fastforce
  then have "mark_new_mines ?nm (ai, False) = (ai, False)" by (simp add: mark_new_mines_known)
  then show mp: "mark_phase ai = (clear_empty ai, False)"
    by (simp add: mark_phase_def Let_def collect_known_eq ns)
  with inf show i: "infer_sentences (knowledge (clear_empty ai)) ([], False) = ([], False)" by simp
  show "fst (update_pass ai) = clear_empty ai"
    unfolding update_pass_def Let_def mp fst_conv snd_conv i by simp
qed

lemma clear_empty_twice: "clear_empty (clear_empty ai) = clear_empty ai"
  by (simp add: clear_empty_def)

lemma stable_after_quiet_pass:
  assumes "\<not> snd (update_pass ai)"
  shows "update_pass (fst (update_pass ai)) = (fst (update_pass ai), False)"
proof -
  note q = quiet_pass [OF assms]
  let ?a = "clear_empty ai"
  have ck: "collect_known (knowledge ?a) = collect_known (knowledge ai)"
    by (simp only: collect_known_eq clear_empty_fields known_of_clear)
  have mp: "mark_phase ?a = (?a, False)"
    unfolding mark_phase_def Let_def ck
    using q(1,2) by (simp add: collect_known_eq mark_new_mines_known clear_empty_twice)
  have "update_pass ?a = (?a, False)"
    unfolding update_pass_def Let_def mp fst_conv snd_conv q(4) by simp
  then show ?thesis by (simp add: q(5))
qed

lemma update_knowledge_stable:
  assumes "update_pass ai = (ai, False)"
  shows "update_knowledge ai = Some ai"
  by (subst update_knowledge.simps) (simp add: assms Let_def)

lemma update_knowledge_result_stable:
  assumes "update_knowledge ai0 = Some ai"
  shows "update_pass ai = (ai, False)"
proof -
  from update_knowledge_last_pass [OF assms, of "\<lambda>_. True"]
  obtain a where "\<not> snd (update_pass a)" "ai = fst (update_pass a)" by auto
  then show ?thesis by (simp add: stable_after_quiet_pass)
qed

lemma record_evidence_played:
  "cell \<in> moves_made ai \<Longrightarrow> record_evidence ai cell cnt = ai"
  by (simp add: record_evidence_def)

subsection \<open>Consistency with a placement of the mines\<close>

lemma consistent_iff:
  "consistent M ks \<longleftrightarrow> (\<forall>s \<in> set ks. finite (cells s) \<and> count s = int (card (cells s \<inter> M)))"
  by (simp add: consistent_def list_all_iff)

lemma consistent_finite: "consistent M ks \<Longrightarrow> finite_sentences ks"
  by (simp add: consistent_iff finite_sentences_iff)

lemma consistent_known_mines:
  assumes "consistent M ks" "s \<in> set ks"
  shows "known_mines s \<subseteq> M"
proof (cases "count s = int (card (cells s))")
  case True
  from assms have fin: "finite (cells s)" and c: "count s = int (card (cells s \<inter> M))"
    by (auto simp: consistent_iff)
  from True c have "card (cells s \<inter> M) = card (cells s)" by simp
  with fin have "cells s \<inter> M = cells s"
    by (intro card_subset_eq) auto
  then show ?thesis by (auto simp: known_mines_def)
next
  case False
  then show ?thesis by (simp add: known_mines_def)
qed

lemma consistent_known_safes:
  assumes "consistent M ks" "s \<in> set ks"
  shows "known_safes s \<inter> M = {}"
proof (cases "count s = 0")
  case True
  from assms have fin: "finite (cells s)" and c: "count s = int (card (cells s \<inter> M))"
    by (auto simp: consistent_iff)
  from True c fin have "cells s \<inter> M = {}" by simp
  then show ?thesis by (auto simp: known_safes_def)
next
  case False
  then show ?thesis by (simp add: known_safes_def)
qed

lemma consistent_mark_mine:
  assumes "consistent M ks" "m \<in> M"
  shows "consistent M (map (\<lambda>s. Sentence_mark_mine s m) ks)"
proof -
  have "finite (cells (Sentence_mark_mine s m)) \<and>
        count (Sentence_mark_mine s m) = int (card (cells (Sentence_mark_mine s m) \<inter> M))"
    if fin: "finite (cells s)" and c: "count s = int (card (cells s \<inter> M))" for s
  proof (cases "m \<in> cells s")
    case True
    have "(cells s - {m}) \<inter> M = (cells s \<inter> M) - {m}" by auto
    moreover have "m \<in> cells s \<inter> M" using True assms(2) by simp
    moreover have "finite (cells s \<inter> M)" using fin by simp
    ultimately have "int (card ((cells s - {m}) \<inter> M)) = int (card (cells s \<inter> M)) - 1"
      using card_Suc_Diff1 [of "cells s \<inter> M" m] by simp
    with True fin c show ?thesis by (simp add: Sentence_mark_mine_def)
  next
    case False
    with fin c show ?thesis by (simp add: Sentence_mark_mine_def)
  qed
  with assms(1) show ?thesis by (auto simp: consistent_iff)
qed

lemma consistent_mark_safe:
  assumes "consistent M ks" "x \<notin> M"
  shows "consistent M (map (\<lambda>s. Sentence_mark_safe s x) ks)"
proof -
  have "(C - {x}) \<inter> M = C \<inter> M" for C using assms(2) by auto
  then have "finite (cells (Sentence_mark_safe s x)) \<and>
        count (Sentence_mark_safe s x) = int (card (cells (Sentence_mark_safe s x) \<inter> M))"
    if "finite (cells s)" "count s = int (card (cells s \<inter> M))" for s
    using that by (simp add: Sentence_mark_safe_def)
  with assms(1) show ?thesis by (auto simp: consistent_iff)
qed

lemma consistent_filter: "consistent M ks \<Longrightarrow> consistent M (filter P ks)"
  by (auto simp: consistent_iff)

lemma consistent_append: "consistent M (xs @ ys) \<longleftrightarrow> consistent M xs \<and> consistent M ys"
  by (auto simp: consistent_iff)

lemma consistent_derived:
  assumes "finite (cells A)" "count A = int (card (cells A \<inter> M))"
    and "finite (cells B)" "count B = int (card (cells B \<inter> M))"
    and "cells B \<subseteq> cells A"
  shows "finite (cells (derived A B)) \<and>
         count (derived A B) = int (card (cells (derived A B) \<inter> M))"
proof -
  have "(cells A - cells B) \<inter> M = (cells A \<inter> M) - (cells B \<inter> M)" by auto
  moreover have "cells B \<inter> M \<subseteq> cells A \<inter> M" using assms(5) by auto
  moreover have "finite (cells A \<inter> M)" "finite (cells B \<inter> M)" using assms(1,3) by auto
  ultimately have "int (card ((cells A - cells B) \<inter> M))
      = int (card (cells A \<inter> M)) - int (card (cells B \<inter> M))"
    by (simp add: card_Diff_subset card_mono of_nat_diff)
  with assms show ?thesis by (simp add: derived_def new_Sentence_def)
qed

lemma consistent_extends:
  assumes "extends ks acc acc'" "consistent M ks" "consistent M (fst acc)"
  shows "consistent M (fst acc')"
proof -
  from assms(1) obtain new where new: "fst acc' = fst acc @ new"
    and by_pair: "\<forall>s \<in> set new. \<exists>A \<in> set ks. \<exists>B \<in> set ks. subset_pair A B \<and> s = derived A B"
    unfolding extends_def by blast
  have "finite (cells s) \<and> count s = int (card (cells s \<inter> M))" if "s \<in> set new" for s
  proof -
    from by_pair that obtain A B where "A \<in> set ks" "B \<in> set ks" "subset_pair A B" "s = derived A B"
      by blast
    with assms(2) show ?thesis
      using consistent_derived [of A M B] by (simp add: consistent_iff subset_pair_def)
  qed
  with assms(3) show ?thesis by (auto simp: new consistent_iff)
qed

lemma consistent_mark_new_mines:
  "consistent M (knowledge (fst st)) \<Longrightarrow> set ms \<subseteq> M \<Longrightarrow>
   consistent M (knowledge (fst (mark_new_mines ms st)))"
proof (induction ms arbitrary: st)
  case Nil
  then show ?case by simp
next
  case (Cons m ms)
  then have "consistent M (knowledge (fst (mine_step st m)))"
    by (auto simp: mine_step_def consistent_mark_mine)
  with Cons show ?case by simp
qed

lemma consistent_mark_new_safes:
  "consistent M (knowledge (fst st)) \<Longrightarrow> set xs \<inter> M = {} \<Longrightarrow>
   consistent M (knowledge (fst (mark_new_safes xs st)))"
proof (induction xs arbitrary: st)
  case Nil
  then show ?case by simp
next
  case (Cons x xs)
  then have "consistent M (knowledge (fst (safe_step st x)))"
    by (auto simp: safe_step_def consistent_mark_safe)
  with Cons show ?case by simp
qed

lemma consistent_marks:
  assumes "consistent M (knowledge ai)"
  shows "set (sorted_list_of_set (\<Union> (known_mines ` set (knowledge ai)))) \<subseteq> M"
    and "set (sorted_list_of_set (\<Union> (known_safes ` set (knowledge ai)))) \<inter> M = {}"
proof -
  let ?nm = "\<Union> (known_mines ` set (knowledge ai))" and ?ns = "\<Union> (known_safes ` set (knowledge ai))"
  have fin: "finite ?nm" "finite ?ns" using finite_known [OF consistent_finite [OF assms]] .
  have "?nm \<subseteq> M" using consistent_known_mines [OF assms] by auto
  with fin show "set (sorted_list_of_set ?nm) \<subseteq> M" by simp
  have "?ns \<inter> M = {}" using consistent_known_safes [OF assms] by auto
  with fin show "set (sorted_list_of_set ?ns) \<inter> M = {}" by simp
qed

lemma consistent_mark_phase:
  assumes "consistent M (knowledge ai)"
  shows "consistent M (knowledge (fst (mark_phase ai)))"
proof -
  let ?nm = "\<Union> (known_mines ` set (knowledge ai))" and ?ns = "\<Union> (known_safes ` set (knowledge ai))"
  have "consistent M (knowledge (fst (mark_new_safes (sorted_list_of_set ?ns)
      (mark_new_mines (sorted_list_of_set ?nm) (ai, False)))))"
    using assms consistent_marks [OF assms]
    by (intro consistent_mark_new_safes consistent_mark_new_mines) simp_all
  then show ?thesis
    by (simp add: mark_phase_def Let_def collect_known_eq consistent_filter)
qed

lemma consistent_update_pass:
  assumes "consistent M (knowledge ai)"
  shows "consistent M (knowledge (fst (update_pass ai)))"
proof -
  let ?a = "fst (mark_phase ai)"
  have c: "consistent M (knowledge ?a)" using assms by (rule consistent_mark_phase)
  have "consistent M (fst (infer_sentences (knowledge ?a) ([], snd (mark_phase ai))))"
    by (rule consistent_extends [OF extends_infer_sentences c]) (simp add: consistent_def)
  with c show ?thesis
    by (simp add: knowledge_update_pass consistent_append)
qed

lemma sound_update_pass:
  assumes "sound M ai"
  shows "sound M (fst (update_pass ai))"
proof -
  from assms have c: "consistent M (knowledge ai)" by (simp add: sound_def)
  from consistent_marks [OF c] consistent_update_pass [OF c] assms show ?thesis
    by (auto simp: sound_def update_pass_frame)
qed

lemma sound_disjoint: "sound M ai \<Longrightarrow> safes ai \<inter> mines ai = {}"
  by (auto simp: sound_def)

lemma sound_record_evidence:
  assumes s: "sound M ai" and safe: "cell \<notin> M"
    and cnt: "cnt = int (card (in_bounds_neighbours ai cell \<inter> M))"
  shows "sound M (record_evidence ai cell cnt)"
proof (cases "cell \<in> moves_made ai")
  case True
  with s show ?thesis by (simp add: record_evidence_played)
next
  case False
  let ?nb = "in_bounds_neighbours ai cell"
  let ?N = "?nb - mines ai - safes ai"
  from s have m: "mines ai \<subseteq> M" and sf: "safes ai \<inter> M = {}" and con: "consistent M (knowledge ai)"
    by (simp_all add: sound_def)
  have fin: "finite ?nb" by (rule finite_in_bounds_neighbours)
  have split: "?nb \<inter> M = (?nb \<inter> mines ai) \<union> (?N \<inter> M)" using m sf by auto
  have disj: "(?nb \<inter> mines ai) \<inter> (?N \<inter> M) = {}" by auto
  have "card (?nb \<inter> M) = card (?nb \<inter> mines ai) + card (?N \<inter> M)"
    unfolding split using fin disj by (intro card_Un_disjoint) auto
  then have count: "cnt - int (card (?nb \<inter> mines ai)) = int (card (?N \<inter> M))"
    using cnt by simp
  have finN: "finite ?N" using fin by simp
  have rec: "record_evidence ai cell cnt =
      ai\<lparr>moves_made := insert cell (moves_made ai), safes := insert cell (safes ai),
         knowledge := (if ?N \<noteq> {}
            then knowledge ai @ [new_Sentence ?N (cnt - int (card (?nb \<inter> mines ai)))]
            else knowledge ai)\<rparr>"
    using False by (rule record_evidence_new)
  show ?thesis
    unfolding rec using m sf con safe count finN
    by (auto simp: sound_def consistent_iff new_Sentence_def)
qed

lemma sound_update_knowledge:
  assumes "update_knowledge ai = Some ai'" "sound M ai"
  shows "sound M ai'"
  using assms(1,2) by (rule update_knowledge_invariant) (rule sound_update_pass)

subsection \<open>Termination of the loop\<close>

lemma unresolved_mark_mine:
  "unresolved (map (\<lambda>s. Sentence_mark_mine s m) ks) = unresolved ks - {m}"
  by (auto simp: unresolved_def Sentence_mark_mine_def split: if_splits)

lemma unresolved_mark_safe:
  "unresolved (map (\<lambda>s. Sentence_mark_safe s m) ks) = unresolved ks - {m}"
  by (auto simp: unresolved_def Sentence_mark_safe_def split: if_splits)

lemma unresolved_clear: "unresolved (filter (\<lambda>s. cells s \<noteq> {}) ks) = unresolved ks"
  by (auto simp: unresolved_def)

lemma unresolved_append: "unresolved (xs @ ys) = unresolved xs \<union> unresolved ys"
  by (auto simp: unresolved_def)

lemma unresolved_mine_step:
  "unresolved (knowledge (fst (mine_step st m))) \<subseteq> unresolved (knowledge (fst st))"
  by (auto simp: mine_step_def unresolved_mark_mine)

lemma unresolved_mark_new_mines:
  "unresolved (knowledge (fst (mark_new_mines ms st))) \<subseteq> unresolved (knowledge (fst st))"
proof (induction ms arbitrary: st)
  case Nil
  then show ?case by simp
next
  case (Cons m ms)
  have "unresolved (knowledge (fst (mark_new_mines ms (mine_step st m))))
        \<subseteq> unresolved (knowledge (fst (mine_step st m)))" by (rule Cons.IH)
  with unresolved_mine_step [of st m] show ?case by auto
qed

lemma marked_mine_gone:
  "snd (mark_new_mines ms st) \<Longrightarrow>
   snd st \<or> (\<exists>m \<in> set ms. m \<notin> unresolved (knowledge (fst (mark_new_mines ms st))))"
proof (induction ms arbitrary: st)
  case Nil
  then show ?case by simp
next
  case (Cons m ms)
  let ?st = "mine_step st m"
  from Cons.prems have "snd (mark_new_mines ms ?st)" by simp
  from Cons.IH [OF this] show ?case
  proof
    assume flag: "snd ?st"
    show ?thesis
    proof (cases "snd st")
      case True
      then show ?thesis ..
    next
      case False
      with flag have st: "?st = (mark_mine (fst st) m, True)"
        by (auto simp: mine_step_def split: if_splits)
      then have "m \<notin> unresolved (knowledge (fst ?st))" by (simp add: unresolved_mark_mine)
      with unresolved_mark_new_mines [of ms ?st]
      have "m \<notin> unresolved (knowledge (fst (mark_new_mines ms ?st)))" by auto
      then show ?thesis by auto
    qed
  next
    assume "\<exists>m' \<in> set ms. m' \<notin> unresolved (knowledge (fst (mark_new_mines ms ?st)))"
    then show ?thesis by auto
  qed
qed

lemma unresolved_mark_new_safes:
  "unresolved (knowledge (fst (mark_new_safes xs st))) = unresolved (knowledge (fst st)) - set xs"
proof (induction xs arbitrary: st)
  case Nil
  then show ?case by simp
next
  case (Cons x xs)
  show ?case
    by (simp add: Cons.IH) (auto simp: safe_step_def unresolved_mark_safe)
qed

lemma known_in_unresolved:
  "\<Union> (known_mines ` set ks) \<subseteq> unresolved ks" "\<Union> (known_safes ` set ks) \<subseteq> unresolved ks"
  by (auto simp: unresolved_def known_mines_def known_safes_def split: if_splits)

lemma finite_unresolved: "finite_sentences ks \<Longrightarrow> finite (unresolved ks)"
  by (simp add: finite_sentences_iff unresolved_def)

lemma unresolved_mark_phase:
  "unresolved (knowledge (fst (mark_phase ai))) \<subseteq> unresolved (knowledge ai)"
proof -
  let ?nm = "sorted_list_of_set (\<Union> (known_mines ` set (knowledge ai)))"
  let ?ns = "sorted_list_of_set (\<Union> (known_safes ` set (knowledge ai)))"
  have "unresolved (knowledge (fst (mark_phase ai)))
      = unresolved (knowledge (fst (mark_new_mines ?nm (ai, False)))) - set ?ns"
    by (simp add: mark_phase_def Let_def collect_known_eq unresolved_clear unresolved_mark_new_safes)
  with unresolved_mark_new_mines [of ?nm "(ai, False)"] show ?thesis by auto
qed

lemma mark_phase_shrinks:
  assumes fin: "finite_sentences (knowledge ai)" and flag: "snd (mark_phase ai)"
  shows "unresolved (knowledge (fst (mark_phase ai))) \<subset> unresolved (knowledge ai)"
proof -
  let ?K = "knowledge ai"
  let ?nm = "sorted_list_of_set (\<Union> (known_mines ` set ?K))"
  let ?ns = "sorted_list_of_set (\<Union> (known_safes ` set ?K))"
  let ?st1 = "mark_new_mines ?nm (ai, False)"
  have set_nm: "set ?nm \<subseteq> unresolved ?K" and set_ns: "set ?ns \<subseteq> unresolved ?K"
    using finite_known [OF fin] known_in_unresolved [of ?K] by simp_all
  have final: "unresolved (knowledge (fst (mark_phase ai)))
      = unresolved (knowledge (fst ?st1)) - set ?ns"
    by (simp add: mark_phase_def Let_def collect_known_eq unresolved_clear unresolved_mark_new_safes)
  from flag have "snd ?st1 \<or> ?ns \<noteq> []"
    by (simp add: mark_phase_def Let_def collect_known_eq mark_new_safes_flag)
  then have "\<exists>c \<in> unresolved ?K. c \<notin> unresolved (knowledge (fst (mark_phase ai)))"
  proof
    assume "snd ?st1"
    from marked_mine_gone [OF this] obtain m
      where "m \<in> set ?nm" "m \<notin> unresolved (knowledge (fst ?st1))" by auto
    with set_nm final show ?thesis by auto
  next
    assume "?ns \<noteq> []"
    then obtain x where "x \<in> set ?ns" by (cases ?ns) auto
    with set_ns final show ?thesis by auto
  qed
  with unresolved_mark_phase [of ai] show ?thesis by auto
qed

lemma cell_sets_clear: "cell_sets (filter (\<lambda>s. cells s \<noteq> {}) ks) = cell_sets ks"
  by (auto simp: cell_sets_def)

lemma cell_sets_bound:
  assumes "finite (unresolved ks)"
  shows "finite (cell_sets ks)" "card (cell_sets ks) \<le> 2 ^ card (unresolved ks)"
proof -
  have sub: "cell_sets ks \<subseteq> Pow (unresolved ks)"
    by (auto simp: cell_sets_def unresolved_def)
  have fin: "finite (Pow (unresolved ks))" using assms by simp
  show "finite (cell_sets ks)" using sub fin by (rule finite_subset)
  have "card (cell_sets ks) \<le> card (Pow (unresolved ks))" using sub fin by (intro card_mono)
  then show "card (cell_sets ks) \<le> 2 ^ card (unresolved ks)" by (simp add: card_Pow assms)
qed

text \<open>In a consistent list the cells of a sentence determine its count.\<close>

lemma consistent_same_cells:
  "consistent M ks \<Longrightarrow> s \<in> set ks \<Longrightarrow> t \<in> set ks \<Longrightarrow> cells s = cells t \<Longrightarrow> sentence_eq s t"
  by (simp add: consistent_iff sentence_eq_def)

lemma derived_in_unresolved:
  "A \<in> set ks \<Longrightarrow> cells (derived A B) \<subseteq> unresolved ks"
  by (auto simp: derived_def new_Sentence_def unresolved_def)

lemma extends_unresolved:
  assumes "extends ks ([], u) acc'"
  shows "unresolved (ks @ fst acc') = unresolved ks"
proof -
  from assms have "\<forall>s \<in> set (fst acc'). \<exists>A \<in> set ks. \<exists>B \<in> set ks. subset_pair A B \<and> s = derived A B"
    by (auto simp: extends_def)
  then have "unresolved (fst acc') \<subseteq> unresolved ks"
    using derived_in_unresolved by (fastforce simp: unresolved_def)
  then show ?thesis by (auto simp: unresolved_append)
qed

lemma extends_new_cell_set:
  assumes ext: "extends ks ([], u) acc'" and con: "consistent M ks" and s: "s \<in> set (fst acc')"
  shows "cells s \<noteq> {} \<and> cells s \<notin> cells ` set ks"
proof -
  from ext s obtain A B where AB: "A \<in> set ks" "B \<in> set ks" "subset_pair A B" "s = derived A B"
    and new: "\<not> sentence_in s ks"
    by (auto simp: extends_def)
  have cs: "consistent M (ks @ fst acc')"
    using consistent_extends [OF ext con] con by (simp add: consistent_append consistent_def)
  have "cells s \<noteq> {}"
  proof
    assume "cells s = {}"
    with AB(3,4) have "cells A = cells B"
      by (auto simp: derived_def new_Sentence_def subset_pair_def)
    with con AB(1,2) have "sentence_eq A B" by (rule consistent_same_cells)
    with AB(3) show False by (simp add: subset_pair_def)
  qed
  moreover have "cells s \<notin> cells ` set ks"
  proof
    assume "cells s \<in> cells ` set ks"
    then obtain t where t: "t \<in> set ks" "cells t = cells s" by auto
    with s have "sentence_eq t s"
      by (intro consistent_same_cells [OF cs]) auto
    with t(1) new show False
      by (auto simp: sentence_in_iff sentence_eq_def)
  qed
  ultimately show ?thesis ..
qed

lemma extends_cell_sets_grow:
  assumes ext: "extends ks ([], u) acc'" and con: "consistent M ks" and ne: "fst acc' \<noteq> []"
  shows "cell_sets ks \<subset> cell_sets (ks @ fst acc')"
proof -
  from ne obtain s where s: "s \<in> set (fst acc')" by (cases "fst acc'") auto
  from extends_new_cell_set [OF ext con s]
  have "cells s \<in> cell_sets (ks @ fst acc')" "cells s \<notin> cell_sets ks"
    using s by (auto simp: cell_sets_def)
  moreover have "cell_sets ks \<subseteq> cell_sets (ks @ fst acc')" by (auto simp: cell_sets_def)
  ultimately show ?thesis by auto
qed

lemma pass_decreases:
  assumes con: "consistent M (knowledge ai)" and flag: "snd (update_pass ai)"
  shows "(pass_measure (fst (update_pass ai)), pass_measure ai) \<in> less_than <*lex*> less_than"
proof -
  let ?K = "knowledge ai"
  let ?K1 = "knowledge (fst (mark_phase ai))"
  let ?res = "infer_sentences ?K1 ([], snd (mark_phase ai))"
  let ?K2 = "knowledge (fst (update_pass ai))"
  have K2: "?K2 = ?K1 @ fst ?res" by (rule knowledge_update_pass)
  have ext: "extends ?K1 ([], snd (mark_phase ai)) ?res" by (rule extends_infer_sentences)
  have U2: "unresolved ?K2 = unresolved ?K1" unfolding K2 using ext by (rule extends_unresolved)
  have finK: "finite_sentences ?K" using con by (rule consistent_finite)
  have finU: "finite (unresolved ?K)" using finK by (rule finite_unresolved)
  show ?thesis
  proof (cases "snd (mark_phase ai)")
    case True
    with finK have "unresolved ?K1 \<subset> unresolved ?K" by (rule mark_phase_shrinks)
    with finU have "card (unresolved ?K2) < card (unresolved ?K)"
      unfolding U2 by (rule psubset_card_mono)
    then show ?thesis by (simp add: pass_measure_def)
  next
    case False
    have mp: "?K1 = filter (\<lambda>s. cells s \<noteq> {}) ?K"
    proof -
      from False have "\<not> snd (mark_new_safes (sorted_list_of_set (\<Union> (known_safes ` set ?K)))
          (mark_new_mines (sorted_list_of_set (\<Union> (known_mines ` set ?K))) (ai, False)))"
        by (simp add: mark_phase_def Let_def collect_known_eq)
      then have ns: "sorted_list_of_set (\<Union> (known_safes ` set ?K)) = []"
        and nm: "\<not> snd (mark_new_mines (sorted_list_of_set (\<Union> (known_mines ` set ?K))) (ai, False))"
        by (simp_all add: mark_new_safes_flag)
      from mark_new_mines_quiet [OF nm]
      have "mark_new_mines (sorted_list_of_set (\<Union> (known_mines ` set ?K))) (ai, False) = (ai, False)"
        by (intro mark_new_mines_known) simp
      then show ?thesis by (simp add: mark_phase_def Let_def collect_known_eq ns)
    qed
    have con1: "consistent M ?K1" unfolding mp using con by (rule consistent_filter)
    have U1: "unresolved ?K1 = unresolved ?K" by (simp add: mp unresolved_clear)
    have D1: "cell_sets ?K1 = cell_sets ?K" by (simp add: mp cell_sets_clear)
    from flag False have "fst ?res \<noteq> []"
      using ext by (auto simp: update_pass_def Let_def extends_def)
    with ext con1 have "cell_sets ?K1 \<subset> cell_sets ?K2"
      unfolding K2 by (rule extends_cell_sets_grow)
    moreover have finU2: "finite (unresolved ?K2)" by (simp add: U2 U1 finU)
    ultimately have "card (cell_sets ?K) < card (cell_sets ?K2)"
      unfolding D1 [symmetric] using cell_sets_bound(1) [OF finU2] by (intro psubset_card_mono)
    moreover have "card (cell_sets ?K2) \<le> 2 ^ card (unresolved ?K2)"
      using finU2 by (rule cell_sets_bound)
    ultimately have "2 ^ card (unresolved ?K2) - card (cell_sets ?K2)
        < 2 ^ card (unresolved ?K2) - card (cell_sets ?K)" by arith
    then show ?thesis by (simp add: pass_measure_def U2 U1)
  qed
qed

lemma update_knowledge_terminates:
  assumes "consistent M (knowledge ai)"
  shows "\<exists>ai'. update_knowledge ai = Some ai'"
proof -
  let ?R = "inv_image (less_than <*lex*> less_than) pass_measure"
  let ?P = "\<lambda>a. consistent M (knowledge a) \<longrightarrow> (\<exists>ai'. update_knowledge a = Some ai')"
  have wf: "wf ?R"
    by (intro wf_inv_image wf_lex_prod wf_less_than)
  have "?P ai"
  proof (rule wf_induct [OF wf, of ?P])
    fix a
    assume IH: "\<forall>b. (b, a) \<in> ?R \<longrightarrow> ?P b"
    show "?P a"
    proof
      assume con: "consistent M (knowledge a)"
      show "\<exists>ai'. update_knowledge a = Some ai'"
      proof (cases "snd (update_pass a)")
        case True
        have "(fst (update_pass a), a) \<in> ?R"
          using pass_decreases [OF con True] by simp
        moreover have "consistent M (knowledge (fst (update_pass a)))"
          using con by (rule consistent_update_pass)
        ultimately obtain ai' where "update_knowledge (fst (update_pass a)) = Some ai'"
          using IH by blast
        with True have "update_knowledge a = Some ai'"
          by (subst update_knowledge.simps) (simp add: Let_def)
        then show ?thesis ..
      next
        case False
        then have "update_knowledge a = Some (fst (update_pass a))"
          by (subst update_knowledge.simps) (simp add: Let_def)
        then show ?thesis ..
      qed
    qed
  qed
  with assms show ?thesis by simp
qed

lemma never_returns:
  assumes "update_pass b = (b, True)"
  shows "update_knowledge b = None"
proof (rule ccontr)
  assume "update_knowledge b \<noteq> None"
  then obtain y where ret: "update_knowledge b = Some y" by auto
  have "b \<noteq> b"
  proof (rule update_knowledge.raw_induct [where P = "\<lambda>x y. x \<noteq> b", OF _ ret])
    fix f x y
    assume IH: "\<And>x y. f x = Some y \<Longrightarrow> x \<noteq> b"
      and eq: "(let st = update_pass x in if snd st then f (fst st) else Some (fst st)) = Some y"
    show "x \<noteq> b"
    proof
      assume "x = b"
      with eq assms have "f b = Some y" by (simp add: Let_def)
      with IH show False by blast
    qed
  qed
  then show False by simp
qed

subsection \<open>The invariant and truthful evidence\<close>

text \<open>
  Marking a cell that is not marked the other way keeps the invariant. When the agent is
  sound for a placement of the mines and the evidence is true of it, \<open>add_knowledge\<close>
  returns an agent that is sound for the same placement, so no cell is both safe and a
  mine.
\<close>

lemma mark_mine_keeps_invariant:
  "disjoint_inv ai \<Longrightarrow> c \<notin> safes ai \<Longrightarrow> disjoint_inv (mark_mine ai c)"
  by (fastforce simp: disjoint_inv_def list_all_iff Sentence_mark_mine_def split: if_splits)

lemma mark_safe_keeps_invariant:
  "disjoint_inv ai \<Longrightarrow> c \<notin> mines ai \<Longrightarrow> disjoint_inv (mark_safe ai c)"
  by (fastforce simp: disjoint_inv_def list_all_iff Sentence_mark_safe_def split: if_splits)

lemma add_knowledge_sound:
  assumes s: "sound M ai" and "cell \<notin> M"
    and "cnt = int (card (in_bounds_neighbours ai cell \<inter> M))"
  shows "\<exists>ai'. add_knowledge ai cell cnt = Some ai' \<and> sound M ai' \<and> safes ai' \<inter> mines ai' = {}"
proof -
  let ?a = "record_evidence ai cell cnt"
  have sa: "sound M ?a" using assms by (rule sound_record_evidence)
  then have "consistent M (knowledge ?a)" by (simp add: sound_def)
  then obtain ai' where ret: "update_knowledge ?a = Some ai'"
    using update_knowledge_terminates by blast
  have s': "sound M ai'" using ret sa by (rule sound_update_knowledge)
  then have "safes ai' \<inter> mines ai' = {}" by (rule sound_disjoint)
  with ret s' show ?thesis by (simp add: add_knowledge_def)
qed

lemma first_move_neighbour_mines:
  "in_bounds_neighbours first_move (0, 1) \<inter> {(1, 1)} = {(1, 1)}"
  by (auto simp: in_bounds_neighbours_def first_move_def)

section \<open>The claims\<close>

text \<open>
  C1. After every public operation \<open>safes\<close> and \<open>mines\<close> should be disjoint and no
  sentence should have a cell that is in one of them. In an ordinary game the code breaks
  the second half: \<open>add_knowledge\<close> puts the played cell into \<open>safes\<close> by
  \<^verbatim>\<open>self.safes.add(cell)\<close>, not by \<^verbatim>\<open>self.mark_safe(cell)\<close>, so the cell stays in the
  sentences that have it. On a 3 by 3 board with one mine at \<open>(1, 1)\<close>, the moves
  \<open>(0, 0)\<close> and \<open>(0, 1)\<close>, each with the true count 1, start from an agent that has the
  invariant and end in one where the first sentence still has the safe cell \<open>(0, 1)\<close>.
\<close>

theorem add_knowledge_keeps_played_cell:
  "sound {(1, 1)} (init_ai 3 3) \<and> disjoint_inv (init_ai 3 3) \<and>
   (0, 0) \<notin> {(1, 1) :: cell} \<and>
   1 = int (card (in_bounds_neighbours (init_ai 3 3) (0, 0) \<inter> {(1, 1)})) \<and>
   add_knowledge (init_ai 3 3) (0, 0) 1 = Some first_move \<and>
   sound {(1, 1)} first_move \<and> disjoint_inv first_move \<and>
   (0, 1) \<notin> {(1, 1) :: cell} \<and>
   1 = int (card (in_bounds_neighbours first_move (0, 1) \<inter> {(1, 1)})) \<and>
   add_knowledge first_move (0, 1) 1 = Some second_move \<and>
   (0, 1) \<in> safes second_move \<and> (0, 1) \<in> cells (knowledge second_move ! 0) \<and>
   \<not> disjoint_inv second_move"
proof -
  have "sound {(1, 1)} (init_ai 3 3)" "disjoint_inv (init_ai 3 3)"
    by (simp_all add: sound_def consistent_def disjoint_inv_def init_ai_def)
  moreover have "1 = int (card (in_bounds_neighbours (init_ai 3 3) (0, 0) \<inter> {(1, 1)}))"
    by (simp add: in_bounds_neighbours_corner)
  moreover have "add_knowledge (init_ai 3 3) (0, 0) 1 = Some first_move"
    unfolding first_move_def by code_simp
  moreover have "sound {(1, 1)} first_move"
    by (simp add: sound_def consistent_def first_move_def new_Sentence_def)
  moreover have "disjoint_inv first_move" unfolding first_move_def by code_simp
  moreover have "1 = int (card (in_bounds_neighbours first_move (0, 1) \<inter> {(1, 1)}))"
    by (simp add: first_move_neighbour_mines)
  moreover have "add_knowledge first_move (0, 1) 1 = Some second_move"
    unfolding first_move_def second_move_def by code_simp
  moreover have "(0, 1) \<in> safes second_move" "(0, 1) \<in> cells (knowledge second_move ! 0)"
    by (simp_all add: second_move_def new_Sentence_def)
  moreover have "\<not> disjoint_inv second_move" unfolding second_move_def by code_simp
  ultimately show ?thesis by simp
qed

text \<open>
  C2. The sentences the pairwise step of a pass works on are those of the knowledge list
  as the marking and clearing steps of that pass leave it. For two of them, \<open>A\<close> and
  \<open>B\<close>, unequal as sentences, with the cells of \<open>B\<close> a non-empty subset of those of
  \<open>A\<close>: if the derived count is not negative, a sentence with the cells of \<open>A\<close> less
  those of \<open>B\<close> and that count is in the knowledge list after the pass (it was there, or
  the pass appended it); and no sentence that the pass appends has a negative count.
\<close>

theorem subset_inference:
  assumes "A \<in> set (knowledge (fst (mark_phase ai)))"
    and "B \<in> set (knowledge (fst (mark_phase ai)))"
    and "\<not> sentence_eq A B" and "cells B \<subseteq> cells A" and "cells B \<noteq> {}"
  shows "(0 \<le> count A - count B \<longrightarrow>
            (\<exists>s \<in> set (knowledge (fst (update_pass ai))).
               cells s = cells A - cells B \<and> count s = count A - count B)) \<and>
         (\<exists>new. knowledge (fst (update_pass ai)) = knowledge (fst (mark_phase ai)) @ new \<and>
                (\<forall>s \<in> set new. 0 \<le> count s))"
proof -
  let ?ks = "knowledge (fst (mark_phase ai))"
  let ?res = "infer_sentences ?ks ([], snd (mark_phase ai))"
  have sp: "subset_pair A B" using assms(3-5) by (simp add: subset_pair_def)
  have "sentence_in (derived A B) (?ks @ fst ?res)" if "0 \<le> count A - count B"
    using assms(1,2) sp that by (rule covered_infer_sentences)
  then have one: "0 \<le> count A - count B \<longrightarrow>
            (\<exists>s \<in> set (knowledge (fst (update_pass ai))).
               cells s = cells A - cells B \<and> count s = count A - count B)"
    by (auto simp: knowledge_update_pass sentence_in_iff derived_def new_Sentence_def)
  have "extends ?ks ([], snd (mark_phase ai)) ?res" by (rule extends_infer_sentences)
  then have "\<forall>s \<in> set (fst ?res). 0 \<le> count s" by (auto simp: extends_def)
  then have two: "\<exists>new. knowledge (fst (update_pass ai)) = ?ks @ new \<and> (\<forall>s \<in> set new. 0 \<le> count s)"
    by (auto simp: knowledge_update_pass)
  from one two show ?thesis by blast
qed

theorem subset_inference_witness:
  "new_Sentence {(0, 0), (0, 1), (0, 2)} 1 \<in> set (knowledge (fst (mark_phase subset_law_agent))) \<and>
   new_Sentence {(0, 0), (0, 1)} 1 \<in> set (knowledge (fst (mark_phase subset_law_agent))) \<and>
   \<not> sentence_eq (new_Sentence {(0, 0), (0, 1), (0, 2)} 1) (new_Sentence {(0, 0), (0, 1)} 1) \<and>
   cells (new_Sentence {(0, 0), (0, 1)} 1) \<subseteq> cells (new_Sentence {(0, 0), (0, 1), (0, 2)} 1) \<and>
   cells (new_Sentence {(0, 0), (0, 1)} 1) \<noteq> {} \<and>
   (\<exists>s \<in> set (knowledge (fst (update_pass subset_law_agent))). cells s = {(0, 2)} \<and> count s = 0)"
proof -
  let ?A = "new_Sentence {(0, 0), (0, 1), (0, 2)} 1" and ?B = "new_Sentence {(0, 0), (0, 1)} 1"
  have mp: "knowledge (fst (mark_phase subset_law_agent)) = [?A, ?B]"
    unfolding subset_law_agent_def by code_simp
  have a: "?A \<in> set (knowledge (fst (mark_phase subset_law_agent)))"
    and b: "?B \<in> set (knowledge (fst (mark_phase subset_law_agent)))"
    by (simp_all add: mp)
  have ne: "\<not> sentence_eq ?A ?B" by code_simp
  have sub: "cells ?B \<subseteq> cells ?A" and nonempty: "cells ?B \<noteq> {}" by (simp_all add: new_Sentence_def)
  have d: "cells ?A - cells ?B = {(0, 2)}" "count ?A - count ?B = 0"
    by (auto simp: new_Sentence_def)
  from subset_inference [OF a b ne sub nonempty]
  have "\<exists>s \<in> set (knowledge (fst (update_pass subset_law_agent))). cells s = {(0, 2)} \<and> count s = 0"
    by (simp add: d)
  with a b ne sub nonempty show ?thesis by blast
qed

text \<open>
  C2 as stated fails: read with \<open>A\<close> and \<open>B\<close> taken from the knowledge list at the
  start of the pass, the law does not hold; both sentences below have count zero, the pass
  marks their cells safe and drops them, and the derived sentence is neither kept nor
  appended.
\<close>

theorem subset_inference_start_of_pass_counterexample:
  "new_Sentence {(0, 0), (0, 1)} 0 \<in> set (knowledge both_safe_agent) \<and>
   new_Sentence {(0, 0)} 0 \<in> set (knowledge both_safe_agent) \<and>
   \<not> sentence_eq (new_Sentence {(0, 0), (0, 1)} 0) (new_Sentence {(0, 0)} 0) \<and>
   cells (new_Sentence {(0, 0)} 0) \<subseteq> cells (new_Sentence {(0, 0), (0, 1)} 0) \<and>
   cells (new_Sentence {(0, 0)} 0) \<noteq> {} \<and>
   cells (new_Sentence {(0, 0), (0, 1)} 0) - cells (new_Sentence {(0, 0)} 0) = {(0, 1)} \<and>
   count (new_Sentence {(0, 0), (0, 1)} 0) - count (new_Sentence {(0, 0)} 0) = 0 \<and>
   \<not> sentence_in (new_Sentence {(0, 1)} 0) (knowledge both_safe_agent) \<and>
   knowledge (fst (update_pass both_safe_agent)) = [] \<and>
   \<not> sentence_in (new_Sentence {(0, 1)} 0) (knowledge (fst (update_pass both_safe_agent)))"
proof -
  have "knowledge (fst (update_pass both_safe_agent)) = []"
    unfolding both_safe_agent_def by code_simp
  moreover have "cells (new_Sentence {(0, 0), (0, 1)} 0) - cells (new_Sentence {(0, 0)} 0) = {(0, 1)}"
    by (auto simp: new_Sentence_def)
  ultimately show ?thesis
    by (auto simp: both_safe_agent_def sentence_in_def sentence_eq_def new_Sentence_def)
qed

text \<open>
  C3. When the inference loop returns, every cell of a sentence that was in the knowledge
  list at its start with a count equal to the number of its cells is in \<open>mines\<close>, and
  every cell of a sentence that was there with count zero is in \<open>safes\<close>;
  \<open>known_mines\<close> and \<open>known_safes\<close> return all the cells in these two cases and the
  empty set otherwise.
\<close>

theorem known_cells_marked:
  assumes "update_knowledge ai = Some ai'"
    and "finite_sentences (knowledge ai)"
    and "s \<in> set (knowledge ai)"
  shows "(count s = int (card (cells s)) \<longrightarrow> known_mines s = cells s \<and> cells s \<subseteq> mines ai') \<and>
         (count s = 0 \<longrightarrow> known_safes s = cells s \<and> cells s \<subseteq> safes ai') \<and>
         (count s \<noteq> int (card (cells s)) \<longrightarrow> known_mines s = {}) \<and>
         (count s \<noteq> 0 \<longrightarrow> known_safes s = {})"
proof -
  have g: "mines (fst (update_pass ai)) \<subseteq> mines ai'" "safes (fst (update_pass ai)) \<subseteq> safes ai'"
    using grows_first_pass [OF assms(1)] by (simp_all add: grows_def)
  have "known_mines s \<subseteq> mines (fst (update_pass ai))" "known_safes s \<subseteq> safes (fst (update_pass ai))"
    using assms(3) by (auto simp: update_pass_marks [OF assms(2)])
  with g have "known_mines s \<subseteq> mines ai'" "known_safes s \<subseteq> safes ai'" by auto
  then show ?thesis by (auto simp: known_mines_def known_safes_def)
qed

theorem known_cells_marked_witness:
  "update_knowledge two_known = Some two_known_result \<and>
   finite_sentences (knowledge two_known) \<and>
   new_Sentence {(0, 1), (1, 0)} 2 \<in> set (knowledge two_known) \<and>
   count (new_Sentence {(0, 1), (1, 0)} 2) = int (card (cells (new_Sentence {(0, 1), (1, 0)} 2))) \<and>
   cells (new_Sentence {(0, 1), (1, 0)} 2) \<subseteq> mines two_known_result \<and>
   new_Sentence {(1, 1), (2, 2)} 0 \<in> set (knowledge two_known) \<and>
   count (new_Sentence {(1, 1), (2, 2)} 0) = 0 \<and>
   cells (new_Sentence {(1, 1), (2, 2)} 0) \<subseteq> safes two_known_result"
proof -
  have run: "update_knowledge two_known = Some two_known_result"
    unfolding two_known_def two_known_result_def by code_simp
  have fin: "finite_sentences (knowledge two_known)"
    by (simp add: two_known_def new_Sentence_def finite_sentences_def)
  have m1: "new_Sentence {(0, 1), (1, 0)} 2 \<in> set (knowledge two_known)"
    and m2: "new_Sentence {(1, 1), (2, 2)} 0 \<in> set (knowledge two_known)"
    by (simp_all add: two_known_def)
  have c1: "count (new_Sentence {(0, 1), (1, 0)} 2) = int (card (cells (new_Sentence {(0, 1), (1, 0)} 2)))"
    and c2: "count (new_Sentence {(1, 1), (2, 2)} 0) = 0"
    by (simp_all add: new_Sentence_def)
  show ?thesis
    using known_cells_marked [OF run fin m1] known_cells_marked [OF run fin m2] run fin m1 m2 c1 c2
    by blast
qed

text \<open>
  C4. On every agent whose sentences are consistent with some placement of the mines, the
  loop of \<open>update_knowledge\<close> returns, and a further pass on the result changes
  nothing.
\<close>

theorem update_knowledge_returns:
  assumes "consistent M (knowledge ai)"
  shows "\<exists>ai'. update_knowledge ai = Some ai' \<and> update_pass ai' = (ai', False)"
proof -
  from update_knowledge_terminates [OF assms] obtain ai' where "update_knowledge ai = Some ai'" ..
  then show ?thesis using update_knowledge_result_stable by blast
qed

theorem update_knowledge_returns_witness:
  "consistent {(0, 0)} (knowledge subset_law_agent) \<and>
   update_knowledge subset_law_agent = Some subset_law_result \<and>
   update_pass subset_law_result = (subset_law_result, False)"
proof -
  have h: "consistent {(0, 0)} (knowledge subset_law_agent)"
    by (simp add: consistent_def subset_law_agent_def new_Sentence_def)
  have "update_knowledge subset_law_agent = Some subset_law_result"
    unfolding subset_law_agent_def subset_law_result_def by code_simp
  with update_knowledge_returns [OF h] h show ?thesis by auto
qed

text \<open>
  C4 as stated fails: on two sentences with the same cells and different counts the loop
  runs forever; every pass derives the sentence with no cells and count one, and the next
  pass drops it.
\<close>

theorem update_knowledge_loops_counterexample:
  "finite_sentences (knowledge looping_agent) \<and> finite (moves_made looping_agent) \<and>
   finite (mines looping_agent) \<and> finite (safes looping_agent) \<and>
   update_pass looping_agent = (looping_agent_next, True) \<and>
   update_pass looping_agent_next = (looping_agent_next, True) \<and>
   update_knowledge looping_agent = None"
proof -
  have 1: "update_pass looping_agent = (looping_agent_next, True)"
    unfolding looping_agent_def looping_agent_next_def by code_simp
  have 2: "update_pass looping_agent_next = (looping_agent_next, True)"
    unfolding looping_agent_next_def by code_simp
  have "update_knowledge looping_agent = update_knowledge looping_agent_next"
    by (subst update_knowledge.simps) (simp add: 1 Let_def)
  with never_returns [OF 2] have "update_knowledge looping_agent = None" by simp
  with 1 2 show ?thesis
    by (simp add: looping_agent_def finite_sentences_def new_Sentence_def)
qed

text \<open>
  C5. Called with a cell that is not in \<open>moves_made\<close>, \<open>add_knowledge\<close> records the
  move, puts the cell into \<open>safes\<close> and, before it runs the inference loop, leaves the
  knowledge list as follows. When the set of the in-bounds neighbours of the cell that are
  neither in \<open>mines\<close> nor in \<open>safes\<close> is not empty, exactly one sentence is appended:
  its cells are that set, its count is the reported count minus the number of in-bounds
  neighbours in \<open>mines\<close>. When the set is empty, nothing is appended. There are at most
  eight in-bounds neighbours, and the cell is not one of them.
\<close>

theorem add_knowledge_new_sentence:
  assumes "cell \<notin> moves_made ai"
  shows "add_knowledge ai cell cnt = update_knowledge (record_evidence ai cell cnt) \<and>
         record_evidence ai cell cnt =
           ai\<lparr>moves_made := insert cell (moves_made ai), safes := insert cell (safes ai),
              knowledge := knowledge (record_evidence ai cell cnt)\<rparr> \<and>
         (in_bounds_neighbours ai cell - mines ai - safes ai \<noteq> {} \<longrightarrow>
            (\<exists>s. knowledge (record_evidence ai cell cnt) = knowledge ai @ [s] \<and>
                 cells s = in_bounds_neighbours ai cell - mines ai - safes ai \<and>
                 count s = cnt - int (card (in_bounds_neighbours ai cell \<inter> mines ai)) \<and>
                 mine_cell s = {} \<and> safe_cell s = {})) \<and>
         (in_bounds_neighbours ai cell - mines ai - safes ai = {} \<longrightarrow>
            knowledge (record_evidence ai cell cnt) = knowledge ai) \<and>
         card (in_bounds_neighbours ai cell) \<le> 8 \<and> cell \<notin> in_bounds_neighbours ai cell"
proof -
  let ?N = "in_bounds_neighbours ai cell - mines ai - safes ai"
  let ?n = "cnt - int (card (in_bounds_neighbours ai cell \<inter> mines ai))"
  note rec = record_evidence_new [OF assms, of cnt]
  have k: "knowledge (record_evidence ai cell cnt) =
      (if ?N \<noteq> {} then knowledge ai @ [new_Sentence ?N ?n] else knowledge ai)"
    by (subst rec) simp
  have 1: "record_evidence ai cell cnt =
           ai\<lparr>moves_made := insert cell (moves_made ai), safes := insert cell (safes ai),
              knowledge := knowledge (record_evidence ai cell cnt)\<rparr>"
    unfolding k by (subst rec) simp
  have 2: "\<exists>s. knowledge (record_evidence ai cell cnt) = knowledge ai @ [s] \<and>
                 cells s = ?N \<and> count s = ?n \<and> mine_cell s = {} \<and> safe_cell s = {}"
    if "?N \<noteq> {}"
    using that k by (intro exI [of _ "new_Sentence ?N ?n"]) (simp add: new_Sentence_def)
  have 3: "knowledge (record_evidence ai cell cnt) = knowledge ai" if "?N = {}"
    using that k by simp
  show ?thesis
    using 1 2 3 card_in_bounds_neighbours [of ai cell] in_bounds_neighbours_not_self [of cell ai]
    by (simp add: add_knowledge_def)
qed

theorem add_knowledge_new_sentence_witness:
  "(0, 0) \<notin> moves_made corner_agent \<and>
   in_bounds_neighbours corner_agent (0, 0) - mines corner_agent - safes corner_agent \<noteq> {} \<and>
   knowledge (record_evidence corner_agent (0, 0) 2) =
     [\<lparr>cells = {(1, 1)}, count = 1, mine_cell = {}, safe_cell = {}\<rparr>] \<and>
   (0, 0) \<notin> moves_made (init_ai 1 1) \<and>
   in_bounds_neighbours (init_ai 1 1) (0, 0) - mines (init_ai 1 1) - safes (init_ai 1 1) = {} \<and>
   knowledge (record_evidence (init_ai 1 1) (0, 0) 0) = []"
proof -
  have h1: "(0, 0) \<notin> moves_made corner_agent" by (simp add: corner_agent_def)
  have h2: "(0, 0) \<notin> moves_made (init_ai 1 1)" by (simp add: init_ai_def)
  have N1: "in_bounds_neighbours corner_agent (0, 0) - mines corner_agent - safes corner_agent
      = {(1, 1)}"
    by (auto simp: in_bounds_neighbours_corner_agent) (simp_all add: corner_agent_def)
  have M1: "in_bounds_neighbours corner_agent (0, 0) \<inter> mines corner_agent = {(0, 1)}"
    by (auto simp: in_bounds_neighbours_corner_agent) (simp_all add: corner_agent_def)
  have N2: "in_bounds_neighbours (init_ai 1 1) (0, 0) - mines (init_ai 1 1) - safes (init_ai 1 1) = {}"
    by (simp add: in_bounds_neighbours_single)
  from add_knowledge_new_sentence [OF h1, of 2]
  obtain s where "knowledge (record_evidence corner_agent (0, 0) 2) = knowledge corner_agent @ [s]"
    "cells s = {(1, 1)}" "count s = 1" "mine_cell s = {}" "safe_cell s = {}"
    by (auto simp: N1 M1)
  then have k1: "knowledge (record_evidence corner_agent (0, 0) 2) =
     [\<lparr>cells = {(1, 1)}, count = 1, mine_cell = {}, safe_cell = {}\<rparr>]"
    by (cases s) (simp add: corner_agent_def)
  from add_knowledge_new_sentence [OF h2, of 0]
  have k2: "knowledge (record_evidence (init_ai 1 1) (0, 0) 0) = []"
    by (simp add: N2) (simp add: init_ai_def)
  from h1 h2 N1 N2 k1 k2 show ?thesis by simp
qed

text \<open>
  C6. For a cell already in \<open>moves_made\<close>, \<open>add_knowledge\<close> records nothing and builds
  no sentence, but it still runs the inference loop: it is \<open>update_knowledge\<close> on the
  agent as it is. \<open>moves_made\<close> is unchanged; the whole agent is unchanged when a pass
  changes nothing, as in every agent that a completed \<open>add_knowledge\<close> returned.
\<close>

theorem add_knowledge_played:
  assumes "cell \<in> moves_made ai"
  shows "add_knowledge ai cell cnt = update_knowledge ai \<and>
         (\<forall>ai'. add_knowledge ai cell cnt = Some ai' \<longrightarrow> moves_made ai' = moves_made ai) \<and>
         (update_pass ai = (ai, False) \<longrightarrow> add_knowledge ai cell cnt = Some ai) \<and>
         (\<forall>ai0 cell0 cnt0. add_knowledge ai0 cell0 cnt0 = Some ai \<longrightarrow>
            add_knowledge ai cell cnt = Some ai)"
proof -
  have eq: "add_knowledge ai cell cnt = update_knowledge ai"
    using assms by (simp add: add_knowledge_def record_evidence_played)
  have "moves_made ai' = moves_made ai" if "update_knowledge ai = Some ai'" for ai'
    by (rule update_knowledge_invariant [OF that, where P = "\<lambda>a. moves_made a = moves_made ai"])
       (simp_all add: update_pass_frame)
  moreover have "update_knowledge ai = Some ai" if "add_knowledge ai0 cell0 cnt0 = Some ai" for ai0 cell0 cnt0
    using that unfolding add_knowledge_def
    by (intro update_knowledge_stable update_knowledge_result_stable)
  ultimately show ?thesis
    by (auto simp: eq update_knowledge_stable)
qed

theorem add_knowledge_played_witness:
  "(0, 0) \<in> moves_made first_move \<and>
   add_knowledge (init_ai 3 3) (0, 0) 1 = Some first_move \<and>
   update_pass first_move = (first_move, False) \<and>
   add_knowledge first_move (0, 0) 5 = Some first_move \<and>
   add_knowledge first_move (0, 0) 5 = update_knowledge first_move"
proof -
  have h: "(0, 0) \<in> moves_made first_move" by (simp add: first_move_def)
  have r: "add_knowledge (init_ai 3 3) (0, 0) 1 = Some first_move"
    unfolding first_move_def by code_simp
  have p: "update_pass first_move = (first_move, False)"
    unfolding first_move_def by code_simp
  from add_knowledge_played [OF h, of 5] h r p show ?thesis by blast
qed

text \<open>
  C6 as stated fails: after two cells were marked safe by hand, the call for the cell
  already played marks a mine and drops a sentence.
\<close>

theorem add_knowledge_played_counterexample:
  "add_knowledge (init_ai 3 3) (0, 0) 1 = Some first_move \<and>
   mark_safe (mark_safe first_move (0, 1)) (1, 0) = marked_by_hand \<and>
   (0, 0) \<in> moves_made marked_by_hand \<and>
   add_knowledge marked_by_hand (0, 0) 1 = Some marked_by_hand_result \<and>
   mines marked_by_hand_result \<noteq> mines marked_by_hand \<and>
   knowledge marked_by_hand_result \<noteq> knowledge marked_by_hand"
proof -
  have "add_knowledge (init_ai 3 3) (0, 0) 1 = Some first_move"
    unfolding first_move_def by code_simp
  moreover have "mark_safe (mark_safe first_move (0, 1)) (1, 0) = marked_by_hand"
    unfolding first_move_def marked_by_hand_def by code_simp
  moreover have "add_knowledge marked_by_hand (0, 0) 1 = Some marked_by_hand_result"
    unfolding marked_by_hand_def marked_by_hand_result_def by code_simp
  ultimately show ?thesis
    by (simp add: marked_by_hand_def marked_by_hand_result_def)
qed

text \<open>
  C7. Marking the same cell twice, as a mine or as safe, gives the same agent, sentence by
  sentence and field by field, as marking it once.
\<close>

theorem mark_twice:
  "mark_mine (mark_mine ai c) c = mark_mine ai c \<and> mark_safe (mark_safe ai c) c = mark_safe ai c"
  by (simp add: mark_mine_def mark_safe_def Sentence_mark_mine_twice Sentence_mark_safe_twice)

text \<open>
  C8. Whatever the order in which the set \<open>safes\<close> is iterated, \<open>make_safe_move\<close>
  returns a cell of \<open>safes\<close> that is not in \<open>moves_made\<close> when there is one and
  \<open>None\<close> when there is none, and the agent is unchanged.
\<close>

theorem make_safe_move_result:
  assumes "set order = safes ai"
  shows "(safes ai - moves_made ai \<noteq> {} \<longrightarrow>
            (\<exists>move. fst (make_safe_move order ai) = Some move \<and>
                    move \<in> safes ai \<and> move \<notin> moves_made ai)) \<and>
         (safes ai - moves_made ai = {} \<longrightarrow> fst (make_safe_move order ai) = None) \<and>
         snd (make_safe_move order ai) = ai"
proof -
  have none: "find (\<lambda>move. move \<notin> moves_made ai) order = None \<longleftrightarrow> safes ai - moves_made ai = {}"
    using assms by (auto simp: find_None_iff)
  have some: "move \<in> safes ai \<and> move \<notin> moves_made ai"
    if "find (\<lambda>move. move \<notin> moves_made ai) order = Some move" for move
    using that assms by (auto simp: find_Some_iff)
  show ?thesis
    using none some by (cases "find (\<lambda>move. move \<notin> moves_made ai) order") (auto simp: make_safe_move_def)
qed

theorem make_safe_move_result_witness:
  "set [(0, 0), (0, 1)] = safes played_one \<and> safes played_one - moves_made played_one \<noteq> {} \<and>
   fst (make_safe_move [(0, 0), (0, 1)] played_one) = Some (0, 1) \<and>
   set [(0, 0), (0, 1)] = safes played_all \<and> safes played_all - moves_made played_all = {} \<and>
   fst (make_safe_move [(0, 0), (0, 1)] played_all) = None \<and>
   snd (make_safe_move [(0, 0), (0, 1)] played_one) = played_one"
proof -
  have h1: "set [(0, 0), (0, 1)] = safes played_one" by (simp add: played_one_def)
  have h2: "set [(0, 0), (0, 1)] = safes played_all" by (simp add: played_all_def)
  have n1: "safes played_one - moves_made played_one \<noteq> {}" by (simp add: played_one_def)
  have n2: "safes played_all - moves_made played_all = {}" by (simp add: played_all_def)
  have v: "fst (make_safe_move [(0, 0), (0, 1)] played_one) = Some (0, 1)"
    by (simp add: make_safe_move_def played_one_def)
  show ?thesis
    using make_safe_move_result [OF h1] make_safe_move_result [OF h2] h1 h2 n1 n2 v by simp
qed

text \<open>
  C9. Every cell of the sentence that \<open>add_knowledge\<close> appends to the knowledge list
  lies within the grid.
\<close>

theorem new_sentence_in_bounds:
  "\<forall>s \<in> set (drop (length (knowledge ai)) (knowledge (record_evidence ai cell cnt))).
     \<forall>(row, col) \<in> cells s. 0 \<le> row \<and> row < height ai \<and> 0 \<le> col \<and> col < width ai"
proof -
  have "\<forall>(row, col) \<in> snd (scan_neighbours (ai\<lparr>moves_made := mm, safes := sf\<rparr>) cell).
      0 \<le> row \<and> row < height ai \<and> 0 \<le> col \<and> col < width ai" for mm sf
    by (auto simp: scan_neighbours_eq in_bounds_neighbours_def)
  then show ?thesis
    by (auto simp: record_evidence_def Let_def new_Sentence_def)
qed

theorem new_sentence_in_bounds_witness:
  "new_Sentence {(0, 1), (1, 0), (1, 1)} 1
     \<in> set (drop (length (knowledge (init_ai 3 3)))
                (knowledge (record_evidence (init_ai 3 3) (0, 0) 1))) \<and>
   (1, 1) \<in> cells (new_Sentence {(0, 1), (1, 0), (1, 1)} 1) \<and>
   (0::int) \<le> 1 \<and> 1 < height (init_ai 3 3) \<and> 1 < width (init_ai 3 3)"
proof -
  have "knowledge (record_evidence (init_ai 3 3) (0, 0) 1) = [new_Sentence {(0, 1), (1, 0), (1, 1)} 1]"
    by code_simp
  then have a: "new_Sentence {(0, 1), (1, 0), (1, 1)} 1
     \<in> set (drop (length (knowledge (init_ai 3 3)))
                (knowledge (record_evidence (init_ai 3 3) (0, 0) 1)))"
    by (simp add: init_ai_def)
  have b: "(1, 1) \<in> cells (new_Sentence {(0, 1), (1, 0), (1, 1)} 1)"
    by (simp add: new_Sentence_def)
  from new_sentence_in_bounds [of "init_ai 3 3" "(0, 0)" 1] a b
  have "0 \<le> (1::int) \<and> 1 < height (init_ai 3 3) \<and> 0 \<le> (1::int) \<and> 1 < width (init_ai 3 3)"
    by blast
  with a b show ?thesis by simp
qed

text \<open>
  C10. None of the five public operations removes a cell from \<open>moves_made\<close>,
  \<open>safes\<close> or \<open>mines\<close>: each set before the call is a subset of the set after it.
\<close>

theorem sets_grow:
  "grows ai (mark_mine ai c) \<and> grows ai (mark_safe ai c) \<and>
   (\<forall>ai'. add_knowledge ai cell cnt = Some ai' \<longrightarrow> grows ai ai') \<and>
   grows ai (snd (make_safe_move order ai)) \<and> grows ai (snd (make_random_move r ai))"
proof -
  have "grows ai (record_evidence ai cell cnt)"
    by (auto simp: grows_def record_evidence_fields)
  then have "\<forall>ai'. add_knowledge ai cell cnt = Some ai' \<longrightarrow> grows ai ai'"
    unfolding add_knowledge_def by (blast intro: grows_trans grows_update_knowledge)
  moreover have "grows ai (mark_mine ai c)" "grows ai (mark_safe ai c)"
    by (auto simp: grows_def)
  moreover have "snd (make_safe_move order ai) = ai" "snd (make_random_move r ai) = ai"
    by (simp_all add: make_safe_move_def make_random_move_def Let_def)
  ultimately show ?thesis by (simp add: grows_refl)
qed

theorem sets_grow_witness:
  "add_knowledge (init_ai 3 3) (0, 0) 0 =
     Some \<lparr>height = 3, width = 3, moves_made = {(0, 0)}, mines = {},
           safes = {(1, 1), (1, 0), (0, 1), (0, 0)}, knowledge = []\<rparr> \<and>
   grows (init_ai 3 3) \<lparr>height = 3, width = 3, moves_made = {(0, 0)}, mines = {},
           safes = {(1, 1), (1, 0), (0, 1), (0, 0)}, knowledge = []\<rparr>"
proof -
  have run: "add_knowledge (init_ai 3 3) (0, 0) 0 =
     Some \<lparr>height = 3, width = 3, moves_made = {(0, 0)}, mines = {},
           safes = {(1, 1), (1, 0), (0, 1), (0, 0)}, knowledge = []\<rparr>"
    by code_simp
  with sets_grow [of "init_ai 3 3" "(0,0)" "(0,0)" 0 "[]" 0] show ?thesis by blast
qed

end
